theory Spec2Isabelle
  imports Main "HOL-Library.Word"
begin

section \<open>Bytes, nibbles and the hex-prefix encoding\<close>

text \<open>
  A \<open>Buffer\<close> is a list of 8-bit words. A nibble path (\<open>Nibbles = number[]\<close>) is a list of
  natural numbers; every path the trie builds comes out of \<open>bufferToNibbles\<close>, so its
  entries are below 16.
\<close>

type_synonym byte = "8 word"
type_synonym bytes = "byte list"
type_synonym Nibbles = "nat list"

text \<open>
  Modelled from the spec: the nibble utilities of \<open>util/nibbles\<close> (imported by
  \<open>trie.ts\<close>, not part of the sources at hand). Section 4.1: a key of N bytes is 2N
  nibbles, most significant nibble first; \<open>matchingNibbleLength\<close> is the length of the
  longest common prefix; \<open>doKeysMatch\<close> holds when both paths are equal.
\<close>

fun bufferToNibbles :: "bytes \<Rightarrow> Nibbles" where
  "bufferToNibbles [] = []"
| "bufferToNibbles (b # bs) = unat (drop_bit 4 b) # (unat b mod 16) # bufferToNibbles bs"

fun nibblesToBuffer :: "Nibbles \<Rightarrow> bytes" where
  "nibblesToBuffer (hi # lo # ns) = of_nat (push_bit 4 hi + lo) # nibblesToBuffer ns"
| "nibblesToBuffer ns = []"

fun matchingNibbleLength :: "Nibbles \<Rightarrow> Nibbles \<Rightarrow> nat" where
  "matchingNibbleLength (a # as) (b # bs) = (if a = b then Suc (matchingNibbleLength as bs) else 0)"
| "matchingNibbleLength as bs = 0"

definition doKeysMatch :: "Nibbles \<Rightarrow> Nibbles \<Rightarrow> bool" where
  "doKeysMatch keyA keyB =
     (let l = matchingNibbleLength keyA keyB in l = length keyA \<and> l = length keyB)"

text \<open>
  Modelled from the spec: the hex-prefix helpers of \<open>util/hex\<close>. Section 3: the flag is
  \<open>(terminator ? 2 : 0) | (odd ? 1 : 0)\<close>; an odd path packs its first nibble into the low
  half of the flag byte, an even path leaves that half 0. On nibbles this is: prepend \<open>[1]\<close>
  (odd) or \<open>[0, 0]\<close> (even), then add 2 to the first nibble for a terminator.
\<close>

definition addHexPrefix :: "Nibbles \<Rightarrow> bool \<Rightarrow> Nibbles" where
  "addHexPrefix key terminator =
     (let key1 = (if odd (length key) then 1 # key else 0 # 0 # key)
      in if terminator then (hd key1 + 2) # tl key1 else key1)"

definition removeHexPrefix :: "Nibbles \<Rightarrow> Nibbles" where
  "removeHexPrefix val = (case val of [] \<Rightarrow> [] | v # vs \<Rightarrow> if odd v then vs else drop 2 val)"

definition isTerminator :: "Nibbles \<Rightarrow> bool" where
  "isTerminator key = (case key of [] \<Rightarrow> False | k # ks \<Rightarrow> k > 1)"

section \<open>The RLP codec\<close>

text \<open>
  An RLP item is a byte string or a list of items. The same shape is the type
  \<open>EmbeddedNode = Buffer | Buffer[]\<close> of a child reference: a byte string is a hash, an
  array is a node embedded in its parent.
\<close>

datatype item = Buf bytes | Arr "item list"

datatype error =
    MissingNode          \<comment> \<open>'Missing node in DB'\<close>
  | PathNotFound         \<comment> \<open>'Path not found'\<close>
  | StackUnderflow       \<comment> \<open>'Stack underflow'\<close>
  | MissingLastNode      \<comment> \<open>'missing last node'\<close>
  | ExpectedBranchNode   \<comment> \<open>'Expected branch node'\<close>
  | InvalidRoot          \<comment> \<open>'Invalid root length. Roots are ... bytes'\<close>
  | ReservedKey          \<comment> \<open>'Attempted to set ... key but it is not allowed.'\<close>
  | InvalidBatchOp       \<comment> \<open>'Invalid batch db operation'\<close>
  | InvalidProofNodes    \<comment> \<open>'Invalid proof nodes given'\<close>
  | InvalidProof         \<comment> \<open>'Invalid proof provided'\<close>
  | InvalidNode          \<comment> \<open>'Invalid node'\<close>
  | InvalidRLP           \<comment> \<open>any error of the RLP decoder\<close>

text \<open>
  Modelled from the spec: the RLP codec, an external collaborator (section 1) "with
  encodings for byte strings and for lists of byte strings / nested lists". The encoding is
  the standard one: a single byte below 0x80 is itself; a string of fewer than 56 bytes gets
  the prefix \<open>0x80 + length\<close>, a longer one \<open>0xb7 + length of the length\<close> and the big-endian
  length; a list likewise from \<open>0xc0\<close> and \<open>0xf7\<close>.
\<close>

fun be_bytes :: "nat \<Rightarrow> bytes" where
  "be_bytes n = (if n = 0 then [] else be_bytes (n div 256) @ [of_nat (n mod 256)])"

declare be_bytes.simps [simp del]

definition encodeLength :: "nat \<Rightarrow> nat \<Rightarrow> bytes" where
  "encodeLength len offset =
     (if len < 56 then [of_nat (len + offset)]
      else let bs = be_bytes len in of_nat (offset + 55 + length bs) # bs)"

fun rlp_encode :: "item \<Rightarrow> bytes" where
  "rlp_encode (Buf bs) =
     (if length bs = 1 \<and> hd bs < 0x80 then bs else encodeLength (length bs) 128 @ bs)"
| "rlp_encode (Arr xs) =
     (let output = concat (map rlp_encode xs) in encodeLength (length output) 192 @ output)"

definition decodeLength :: "bytes \<Rightarrow> error + nat" where
  "decodeLength v =
     (case v of [] \<Rightarrow> Inl InvalidRLP
      | b # bs \<Rightarrow> if b = 0 then Inl InvalidRLP
                 else Inr (foldl (\<lambda>a x. a * 256 + unat x) 0 v))"

text \<open>
  The decoder is strict, as the library is: no single byte below 0x80 behind a prefix, no
  long form for a short length, no leading zero in a length, no slice beyond the input.
  \<open>rlp_decode_item\<close> returns the first item of the input and what follows it;
  \<open>rlp_decode_items\<close> is the loop over the payload of a list. An item takes at least one
  byte, so what follows is shorter than the input; the loop checks that before it goes on,
  which is what makes the recursion well founded.
\<close>

function rlp_decode_item :: "bytes \<Rightarrow> error + (item \<times> bytes)"
  and rlp_decode_items :: "bytes \<Rightarrow> error + item list" where
  "rlp_decode_item [] = Inl InvalidRLP"
| "rlp_decode_item (firstByte # rest) =
     (let f = unat firstByte in
      if f \<le> 0x7f then Inr (Buf [firstByte], rest)
      else if f \<le> 0xb7 then
        (let len = f - 0x80 in
         if length rest < len then Inl InvalidRLP
         else if len = 1 \<and> hd rest < 0x80 then Inl InvalidRLP
         else Inr (Buf (take len rest), drop len rest))
      else if f \<le> 0xbf then
        (let llength = f - 0xb7 in
         if length rest < llength then Inl InvalidRLP
         else case decodeLength (take llength rest) of
           Inl e \<Rightarrow> Inl e
         | Inr len \<Rightarrow>
             if len \<le> 55 then Inl InvalidRLP
             else if length rest < llength + len then Inl InvalidRLP
             else Inr (Buf (take len (drop llength rest)), drop (llength + len) rest))
      else if f \<le> 0xf7 then
        (let len = f - 0xc0 in
         if length rest < len then Inl InvalidRLP
         else case rlp_decode_items (take len rest) of
           Inl e \<Rightarrow> Inl e
         | Inr ds \<Rightarrow> Inr (Arr ds, drop len rest))
      else
        (let llength = f - 0xf7 in
         if length rest < llength then Inl InvalidRLP
         else case decodeLength (take llength rest) of
           Inl e \<Rightarrow> Inl e
         | Inr len \<Rightarrow>
             if len < 56 then Inl InvalidRLP
             else if length rest < llength + len then Inl InvalidRLP
             else case rlp_decode_items (take len (drop llength rest)) of
               Inl e \<Rightarrow> Inl e
             | Inr ds \<Rightarrow> Inr (Arr ds, drop (llength + len) rest)))"
| "rlp_decode_items input =
     (if input = [] then Inr []
      else case rlp_decode_item input of
        Inl e \<Rightarrow> Inl e
      | Inr (d, remainder) \<Rightarrow>
          if length remainder < length input then
            (case rlp_decode_items remainder of
               Inl e \<Rightarrow> Inl e
             | Inr ds \<Rightarrow> Inr (d # ds))
          else Inl InvalidRLP)"
  by pat_completeness auto
termination
  by (relation "measure (\<lambda>x. case x of Inl input \<Rightarrow> 2 * length input
                                        | Inr input \<Rightarrow> 2 * length input + 1)") auto

declare rlp_decode_item.simps [simp del] rlp_decode_items.simps [simp del]

definition rlp_decode :: "bytes \<Rightarrow> error + item" where
  "rlp_decode input =
     (if input = [] then Inr (Buf [])
      else case rlp_decode_item input of
        Inl e \<Rightarrow> Inl e
      | Inr (d, remainder) \<Rightarrow> if remainder \<noteq> [] then Inl InvalidRLP else Inr d)"

definition RLP_EMPTY_STRING :: bytes where
  "RLP_EMPTY_STRING = [0x80]"

section \<open>Trie nodes\<close>

text \<open>
  Modelled from the spec: the node classes of \<open>trie/node\<close> (imported by \<open>trie.ts\<close>, not
  part of the sources at hand). Section 3: a node is a Leaf (key, value), an Extension
  (key, child reference) or a Branch (16 child references and a value); a branch slot that
  is absent or empty holds no child. A payload is an RLP item: the trie itself only ever
  stores byte strings as values, and byte strings or embedded nodes as children.
  A fresh branch has sixteen absent children and no value; the reading of a branch value
  treats an empty value as absent.
\<close>

datatype TrieNode =
    BranchNode "item option list" "item option"
  | ExtensionNode Nibbles item
  | LeafNode Nibbles item

fun item_length :: "item \<Rightarrow> nat" where
  "item_length (Buf bs) = length bs"
| "item_length (Arr xs) = length xs"

definition new_BranchNode :: TrieNode where
  "new_BranchNode = BranchNode (replicate 16 None) None"

definition getBranch :: "item option list \<Rightarrow> nat \<Rightarrow> item option" where
  "getBranch branches i =
     (if i < length branches
      then (case branches ! i of
              Some b \<Rightarrow> if item_length b > 0 then Some b else None
            | None \<Rightarrow> None)
      else None)"

definition setBranch :: "item option list \<Rightarrow> nat \<Rightarrow> item option \<Rightarrow> item option list" where
  "setBranch branches i v = branches[i := v]"

definition getChildren :: "item option list \<Rightarrow> (nat \<times> item) list" where
  "getChildren branches =
     concat (map (\<lambda>i. case getBranch branches i of Some b \<Rightarrow> [(i, b)] | None \<Rightarrow> []) [0..<16])"

fun node_value :: "TrieNode \<Rightarrow> item option" where
  "node_value (BranchNode branches v) =
     (case v of Some x \<Rightarrow> if item_length x > 0 then Some x else None | None \<Rightarrow> None)"
| "node_value (ExtensionNode k v) = Some v"
| "node_value (LeafNode k v) = Some v"

text \<open>
  Modelled from the spec: the canonical serialization of section 3. A leaf is the RLP list
  \<open>[HP(key, terminator), value]\<close>, an extension \<open>[HP(key, no terminator), childRef]\<close>, a
  branch the list of its 16 child references followed by the value, an absent entry being
  the empty byte string. \<open>raw\<close> is the list before encoding, which is also the form
  embedded in a parent.
\<close>

definition null_item :: "item option \<Rightarrow> item" where
  "null_item x = (case x of None \<Rightarrow> Buf [] | Some i \<Rightarrow> i)"

fun raw :: "TrieNode \<Rightarrow> item" where
  "raw (BranchNode branches v) = Arr (map null_item branches @ [null_item v])"
| "raw (ExtensionNode k v) = Arr [Buf (nibblesToBuffer (addHexPrefix k False)), v]"
| "raw (LeafNode k v) = Arr [Buf (nibblesToBuffer (addHexPrefix k True)), v]"

definition serialize :: "TrieNode \<Rightarrow> bytes" where
  "serialize n = rlp_encode (raw n)"

text \<open>
  Modelled from the spec: \<open>decodeRawNode\<close>, \<open>decodeNode\<close> and \<open>isRawNode\<close> of section 4.2.
  A list of 17 items is a branch, a list of 2 items is a leaf or an extension by the
  terminator flag of its key, anything else is an invalid node.
\<close>

definition decodeRawNode :: "item list \<Rightarrow> error + TrieNode" where
  "decodeRawNode r =
     (if length r = 17 then Inr (BranchNode (map Some (take 16 r)) (Some (r ! 16)))
      else if length r = 2 then
        (case r ! 0 of
           Buf kb \<Rightarrow>
             (let nibbles = bufferToNibbles kb in
              if isTerminator nibbles then Inr (LeafNode (removeHexPrefix nibbles) (r ! 1))
              else Inr (ExtensionNode (removeHexPrefix nibbles) (r ! 1)))
         | Arr xs \<Rightarrow> Inl InvalidNode)
      else Inl InvalidNode)"

definition decodeNode :: "bytes \<Rightarrow> error + TrieNode" where
  "decodeNode bs =
     (case rlp_decode bs of
        Inl e \<Rightarrow> Inl e
      | Inr (Buf b) \<Rightarrow> Inl InvalidNode
      | Inr (Arr des) \<Rightarrow> decodeRawNode des)"


section \<open>The key-value store\<close>

text \<open>
  Modelled from the spec: the in-memory store \<open>MapDB\<close> of section 4.3. \<open>get\<close> returns the
  value or nothing, \<open>put\<close> and \<open>del\<close> write one entry, \<open>batch\<close> applies an ordered list of
  put/del operations. Besides its contents the model keeps the list of write calls the
  store has received, so that "issues no write" can be stated.
\<close>

datatype BatchDBOp = PutBatch bytes "bytes option" | DelBatch bytes

datatype DBCall = CallPut bytes bytes | CallDel bytes | CallBatch "BatchDBOp list"

record MapDB =
  database :: "bytes \<rightharpoonup> bytes"
  calls :: "DBCall list"

definition new_MapDB :: MapDB where
  "new_MapDB = \<lparr>database = Map.empty, calls = []\<rparr>"

definition db_get :: "MapDB \<Rightarrow> bytes \<Rightarrow> bytes option" where
  "db_get d k = database d k"

definition db_put :: "bytes \<Rightarrow> bytes \<Rightarrow> MapDB \<Rightarrow> MapDB" where
  "db_put k v d = d\<lparr>database := (database d)(k \<mapsto> v), calls := calls d @ [CallPut k v]\<rparr>"

definition db_del :: "bytes \<Rightarrow> MapDB \<Rightarrow> MapDB" where
  "db_del k d = d\<lparr>database := (database d)(k := None), calls := calls d @ [CallDel k]\<rparr>"

fun apply_op :: "(bytes \<rightharpoonup> bytes) \<Rightarrow> BatchDBOp \<Rightarrow> (bytes \<rightharpoonup> bytes)" where
  "apply_op m (PutBatch k v) = m(k := v)"
| "apply_op m (DelBatch k) = m(k := None)"

definition db_batch :: "BatchDBOp list \<Rightarrow> MapDB \<Rightarrow> MapDB" where
  "db_batch opStack d =
     d\<lparr>database := foldl apply_op (database d) opStack, calls := calls d @ [CallBatch opStack]\<rparr>"

section \<open>The trie object\<close>

text \<open>
  The fields of \<open>class Trie\<close>. \<open>EMPTY_TRIE_ROOT\<close> and \<open>_hashLen\<close> are computed once by the
  constructor from the hash function and never assigned again, so they are functions of
  the record. \<open>ROOT_DB_KEY\<close> is a constant imported from \<open>../types\<close>, whose value the
  sources at hand do not give: it is a parameter of the record. \<open>rootIsEmptyObject\<close> says
  that \<open>_root\<close> holds the very buffer object \<open>EMPTY_TRIE_ROOT\<close>, which is what
  \<open>this.root === this.EMPTY_TRIE_ROOT\<close> in \<open>fromProof\<close> compares. The semaphore is not
  modelled: the operations below are those of a single caller, one after the other.
\<close>

record Trie =
  db :: MapDB
  root :: bytes
  rootIsEmptyObject :: bool
  deleteFromDB :: bool
  useHashedKeys :: bool
  useHashedKeysFunction :: "bytes \<Rightarrow> bytes"
  persistRootOpt :: bool
  ROOT_DB_KEY :: bytes

definition hash :: "Trie \<Rightarrow> bytes \<Rightarrow> bytes" where
  "hash t msg = useHashedKeysFunction t msg"

definition EMPTY_TRIE_ROOT :: "Trie \<Rightarrow> bytes" where
  "EMPTY_TRIE_ROOT t = hash t RLP_EMPTY_STRING"

definition hashLen :: "Trie \<Rightarrow> nat" where
  "hashLen t = length (EMPTY_TRIE_ROOT t)"

definition appliedKey :: "Trie \<Rightarrow> bytes \<Rightarrow> bytes" where
  "appliedKey t key = (if useHashedKeys t then hash t key else key)"

text \<open>
  Every method returns its result, or the error it throws, together with the trie after
  the call. Modelled from the spec: \<open>isFalsy\<close> of the util package is JavaScript
  falsiness; of the values a \<open>Buffer\<close> parameter can hold only \<open>null\<close> and \<open>undefined\<close>
  are falsy (a buffer is an object, also when it is empty), so a parameter that may be
  absent is an option and \<open>isFalsy\<close> is \<open>None\<close>.
\<close>

definition isFalsy :: "'a option \<Rightarrow> bool" where
  "isFalsy v = (v = None)"

definition set_root :: "bytes option \<Rightarrow> Trie \<Rightarrow> (error + unit) \<times> Trie" where
  "set_root v t =
     (let val = (if isFalsy v then EMPTY_TRIE_ROOT t else the v) in
      if length val \<noteq> hashLen t then (Inl InvalidRoot, t)
      else (Inr (), t\<lparr>root := val, rootIsEmptyObject := isFalsy v\<rparr>))"

definition persistRoot :: "Trie \<Rightarrow> Trie" where
  "persistRoot t =
     (if persistRootOpt t then t\<lparr>db := db_put (appliedKey t (ROOT_DB_KEY t)) (root t) (db t)\<rparr>
      else t)"

definition lookupNode :: "item \<Rightarrow> Trie \<Rightarrow> (error + TrieNode option) \<times> Trie" where
  "lookupNode nodeRef t =
     (case nodeRef of
        Arr r \<Rightarrow> (case decodeRawNode r of Inl e \<Rightarrow> (Inl e, t) | Inr n \<Rightarrow> (Inr (Some n), t))
      | Buf k \<Rightarrow>
          (case db_get (db t) k of
             Some v \<Rightarrow> (case decodeNode v of Inl e \<Rightarrow> (Inl e, t) | Inr n \<Rightarrow> (Inr (Some n), t))
           | None \<Rightarrow> (Inl MissingNode, t)))"

definition checkRoot :: "bytes \<Rightarrow> Trie \<Rightarrow> (error + bool) \<times> Trie" where
  "checkRoot r t =
     (case lookupNode (Buf r) t of
        (Inr v, t1) \<Rightarrow> (Inr (v \<noteq> None), t1)
      | (Inl e, t1) \<Rightarrow> if e = MissingNode then (Inr False, t1) else (Inl e, t1))"

section \<open>Finding a path\<close>

record Path =
  node :: "TrieNode option"
  remaining :: Nibbles
  stack :: "TrieNode list"

text \<open>
  \<open>onFound\<close> is the callback of \<open>findPath\<close>: it pushes the node it is given and either
  resolves the search or asks the walk controller for one more node (\<open>onlyBranchIndex\<close>
  for a branch, \<open>allChildren\<close> for an extension, whose only child is its value).
\<close>

datatype WalkStep =
    Resolve Path
  | Reject error
  | PushNodeToQueue item Nibbles "TrieNode list"

definition onFound :: "Nibbles \<Rightarrow> TrieNode list \<Rightarrow> TrieNode option \<Rightarrow> Nibbles \<Rightarrow> WalkStep" where
  "onFound targetKey stk nd keyProgress =
     (case nd of
        None \<Rightarrow> Reject PathNotFound
      | Some n \<Rightarrow>
          (let keyRemainder = drop (matchingNibbleLength keyProgress targetKey) targetKey;
               stk1 = stk @ [n]
           in case n of
                BranchNode branches v \<Rightarrow>
                  (if keyRemainder = [] then Resolve \<lparr>node = Some n, remaining = [], stack = stk1\<rparr>
                   else (let branchIndex = hd keyRemainder in
                         case getBranch branches branchIndex of
                           None \<Rightarrow> Resolve \<lparr>node = None, remaining = keyRemainder, stack = stk1\<rparr>
                         | Some childRef \<Rightarrow>
                             PushNodeToQueue childRef (keyProgress @ [branchIndex]) stk1))
              | LeafNode k v \<Rightarrow>
                  (if doKeysMatch keyRemainder k
                   then Resolve \<lparr>node = Some n, remaining = [], stack = stk1\<rparr>
                   else Resolve \<lparr>node = None, remaining = keyRemainder, stack = stk1\<rparr>)
              | ExtensionNode k v \<Rightarrow>
                  (if matchingNibbleLength keyRemainder k \<noteq> length k
                   then Resolve \<lparr>node = None, remaining = keyRemainder, stack = stk1\<rparr>
                   else PushNodeToQueue v (keyProgress @ k) stk1)))"

text \<open>
  Modelled from the spec: the walk controller of section 4.4, for the single-child walks
  that \<open>findPath\<close> schedules. It loads the referenced node from the store and hands it to
  the callback; a failed load rejects the walk. \<open>findPath\<close> swallows a missing node unless
  \<open>throwIfMissing\<close> is set and then resolves with no node, an empty remainder and the
  stack collected so far. A store that holds a cycle of nodes consuming no key makes the
  walk run forever: the result \<open>None\<close> is a walk that never resolves.
\<close>

partial_function (option) walkTrie ::
  "bool \<Rightarrow> Nibbles \<Rightarrow> item \<Rightarrow> Nibbles \<Rightarrow> TrieNode list \<Rightarrow> Trie \<Rightarrow> ((error + Path) \<times> Trie) option"
where
  "walkTrie throwIfMissing targetKey nodeRef keyProgress stk t =
     (case lookupNode nodeRef t of
        (Inl e, t1) \<Rightarrow>
          (if e = MissingNode \<and> \<not> throwIfMissing
           then Some (Inr \<lparr>node = None, remaining = [], stack = stk\<rparr>, t1)
           else Some (Inl e, t1))
      | (Inr nd, t1) \<Rightarrow>
          (case onFound targetKey stk nd keyProgress of
             Resolve p \<Rightarrow> Some (Inr p, t1)
           | Reject e \<Rightarrow> Some (Inl e, t1)
           | PushNodeToQueue childRef childKey stk1 \<Rightarrow>
               walkTrie throwIfMissing targetKey childRef childKey stk1 t1))"

declare walkTrie.simps [code]

definition findPath :: "bytes \<Rightarrow> bool \<Rightarrow> Trie \<Rightarrow> ((error + Path) \<times> Trie) option" where
  "findPath key throwIfMissing t =
     walkTrie throwIfMissing (bufferToNibbles key) (Buf (root t)) [] [] t"

definition get :: "bytes \<Rightarrow> bool \<Rightarrow> Trie \<Rightarrow> ((error + item option) \<times> Trie) option" where
  "get key throwIfMissing t =
     (case findPath (appliedKey t key) throwIfMissing t of
        None \<Rightarrow> None
      | Some (Inl e, t1) \<Rightarrow> Some (Inl e, t1)
      | Some (Inr p, t1) \<Rightarrow>
          Some (Inr (case node p of
                       Some n \<Rightarrow> if remaining p = [] then node_value n else None
                     | None \<Rightarrow> None), t1))"

section \<open>Writing nodes\<close>

text \<open>
  \<open>_formatNode\<close>: a node whose serialization has at least 32 bytes, or the top-level
  node, is hashed and a put (or, when removing with \<open>deleteFromDB\<close>, a del) is pushed on
  the operation stack; any other node is returned raw, to be embedded in its parent.
\<close>

definition formatNode ::
  "TrieNode \<Rightarrow> bool \<Rightarrow> BatchDBOp list \<Rightarrow> bool \<Rightarrow> Trie \<Rightarrow> item \<times> BatchDBOp list" where
  "formatNode n topLevel opStack remove t =
     (let encoded = serialize n in
      if length encoded \<ge> 32 \<or> topLevel then
        (let hashRoot = hash t encoded in
         if remove then
           (if deleteFromDB t then (Buf hashRoot, opStack @ [DelBatch hashRoot])
            else (Buf hashRoot, opStack))
         else (Buf hashRoot, opStack @ [PutBatch hashRoot (Some encoded)]))
      else (raw n, opStack))"

text \<open>
  \<open>key.splice(key.length - n)\<close> cuts the last \<open>n\<close> nibbles off; a negative start counts
  from the end of the array, as JavaScript has it.
\<close>

definition splice_from :: "Nibbles \<Rightarrow> nat \<Rightarrow> Nibbles" where
  "splice_from key n =
     (let len = int (length key); start = len - int n;
          actualStart = (if start < 0 then max (len + start) 0 else min start len)
      in take (nat actualStart) key)"

text \<open>
  The loop of \<open>_saveStack\<close>. The stack is given top first (the reverse of the array), so
  that popping is taking the head; \<open>lastRoot\<close> is the reference of the node formatted just
  before, absent in the first round.
\<close>

fun saveStack_loop ::
  "Trie \<Rightarrow> Nibbles \<Rightarrow> TrieNode list \<Rightarrow> item option \<Rightarrow> BatchDBOp list \<Rightarrow> item option \<times> BatchDBOp list"
where
  "saveStack_loop t key [] lastRoot opStack = (lastRoot, opStack)"
| "saveStack_loop t key (n # rest) lastRoot opStack =
     (let (key1, n1) =
        (case n of
           LeafNode k v \<Rightarrow> (splice_from key (length k), n)
         | ExtensionNode k v \<Rightarrow>
             (splice_from key (length k),
              (case lastRoot of Some r \<Rightarrow> ExtensionNode k r | None \<Rightarrow> n))
         | BranchNode branches v \<Rightarrow>
             (case lastRoot of
                Some r \<Rightarrow>
                  (if key = [] then (key, n)
                   else (butlast key, BranchNode (setBranch branches (last key) (Some r)) v))
              | None \<Rightarrow> (key, n)));
          (r1, opStack1) = formatNode n1 (rest = []) opStack False t
      in saveStack_loop t key1 rest (Some r1) opStack1)"

definition saveStack :: "Nibbles \<Rightarrow> TrieNode list \<Rightarrow> BatchDBOp list \<Rightarrow> Trie \<Rightarrow> (error + unit) \<times> Trie" where
  "saveStack key stk opStack t =
     (let (lastRoot, opStack1) = saveStack_loop t key (rev stk) None opStack;
          r = (case lastRoot of
                 None \<Rightarrow> (Inr (), t)
               | Some (Buf h) \<Rightarrow> set_root (Some h) t
               | Some (Arr xs) \<Rightarrow> (Inl InvalidRoot, t))
      in case r of
           (Inl e, t1) \<Rightarrow> (Inl e, t1)
         | (Inr u, t1) \<Rightarrow> (Inr (), persistRoot (t1\<lparr>db := db_batch opStack1 (db t1)\<rparr>)))"

definition createInitialNode :: "bytes \<Rightarrow> bytes \<Rightarrow> Trie \<Rightarrow> (error + unit) \<times> Trie" where
  "createInitialNode key val t =
     (let newNode = LeafNode (bufferToNibbles key) (Buf val);
          encoded = serialize newNode
      in case set_root (Some (hash t encoded)) t of
           (Inl e, t1) \<Rightarrow> (Inl e, t1)
         | (Inr u, t1) \<Rightarrow> (Inr (), persistRoot (t1\<lparr>db := db_put (root t1) encoded (db t1)\<rparr>)))"

section \<open>Inserting\<close>

text \<open>
  The number of key nibbles that a stack of nodes consumes, as the loop at the head of
  \<open>_updateNode\<close> counts it: one for a branch, the key length for any other node.
\<close>

fun stack_key_length :: "TrieNode list \<Rightarrow> nat" where
  "stack_key_length [] = 0"
| "stack_key_length (BranchNode branches v # ns) = 1 + stack_key_length ns"
| "stack_key_length (ExtensionNode k v # ns) = length k + stack_key_length ns"
| "stack_key_length (LeafNode k v # ns) = length k + stack_key_length ns"

text \<open>
  The last branch of \<open>_updateNode\<close>: the last node is a leaf or an extension (\<open>isLeaf\<close>
  tells which) with key \<open>lastKey\<close> and value \<open>lastValue\<close>, and a new branch node is put
  where its key and the remaining key part. The objects that the source pushes and then
  mutates appear here in their final state.
\<close>

definition mk_node :: "bool \<Rightarrow> Nibbles \<Rightarrow> item \<Rightarrow> TrieNode" where
  "mk_node isLeaf k v = (if isLeaf then LeafNode k v else ExtensionNode k v)"

definition splitNode ::
  "bool \<Rightarrow> Nibbles \<Rightarrow> item \<Rightarrow> bytes \<Rightarrow> Nibbles \<Rightarrow> TrieNode list \<Rightarrow> Trie \<Rightarrow> TrieNode list \<times> BatchDBOp list"
where
  "splitNode isLeaf lastKey lastValue val keyRemainder stk t =
     (let matchingLength = matchingNibbleLength lastKey keyRemainder;
          stk1 = (if matchingLength \<noteq> 0
                  then stk @ [ExtensionNode (take matchingLength lastKey) (Buf val)] else stk);
          lastKey1 = drop matchingLength lastKey;
          keyRemainder1 = drop matchingLength keyRemainder;
          (branches, bvalue, toSave) =
            (if lastKey1 \<noteq> [] then
               (let branchKey = hd lastKey1; lastKey2 = tl lastKey1 in
                if lastKey2 \<noteq> [] \<or> isLeaf then
                  (let (formattedNode, toSave1) =
                         formatNode (mk_node isLeaf lastKey2 lastValue) False [] False t
                   in (setBranch (replicate 16 None) branchKey (Some formattedNode), None, toSave1))
                else
                  (let (formattedNode, toSave1) =
                         formatNode (mk_node isLeaf lastKey lastValue) False [] True t
                   in (setBranch (replicate 16 None) branchKey (Some lastValue), None, toSave1)))
             else (replicate 16 None, Some lastValue, []))
      in if keyRemainder1 \<noteq> []
         then (stk1 @ [BranchNode branches bvalue, LeafNode (tl keyRemainder1) (Buf val)], toSave)
         else (stk1 @ [BranchNode branches (Some (Buf val))], toSave))"

definition updateNode ::
  "bytes \<Rightarrow> bytes \<Rightarrow> Nibbles \<Rightarrow> TrieNode list \<Rightarrow> Trie \<Rightarrow> (error + unit) \<times> Trie" where
  "updateNode k val keyRemainder stk t =
     (case rev stk of
        [] \<Rightarrow> (Inl StackUnderflow, t)
      | lastNode # rstk \<Rightarrow>
          (let stk0 = rev rstk; key = bufferToNibbles k in
           case lastNode of
             LeafNode lk lv \<Rightarrow>
               (if matchingNibbleLength lk (drop (stack_key_length stk0) key) = length lk
                   \<and> keyRemainder = []
                then saveStack key (stk0 @ [LeafNode lk (Buf val)]) [] t
                else (let (stk1, toSave) = splitNode True lk lv val keyRemainder stk0 t
                      in saveStack key stk1 toSave t))
           | BranchNode branches bv \<Rightarrow>
               (if keyRemainder \<noteq> []
                then saveStack key (stk0 @ [lastNode, LeafNode (tl keyRemainder) (Buf val)]) [] t
                else saveStack key (stk0 @ [BranchNode branches (Some (Buf val))]) [] t)
           | ExtensionNode ek ev \<Rightarrow>
               (let (stk1, toSave) = splitNode False ek ev val keyRemainder stk0 t
                in saveStack key stk1 toSave t)))"

section \<open>Deleting\<close>

text \<open>
  \<open>processBranchNode\<close>, the local function of \<open>_deleteNode\<close>: \<open>branchNode\<close> is the one
  node left on a branch that is being dissolved, \<open>branchKey\<close> its index there, and
  \<open>parentNode\<close> the node above the branch, if any. It returns the key and the stack. The
  extension that wraps a branch is created with no value; \<open>_saveStack\<close> fills it in, and
  it serializes as the empty byte string until then.
\<close>

definition processBranchNode ::
  "Nibbles \<Rightarrow> nat \<Rightarrow> TrieNode \<Rightarrow> TrieNode option \<Rightarrow> TrieNode list \<Rightarrow> Nibbles \<times> TrieNode list" where
  "processBranchNode key branchKey branchNode parentNode stk =
     (let underBranch = (\<lambda>stk1.
            (case branchNode of
               BranchNode branches v \<Rightarrow>
                 (key @ [branchKey], stk1 @ [ExtensionNode [branchKey] (Buf []), branchNode])
             | ExtensionNode k v \<Rightarrow>
                 (key @ (branchKey # k), stk1 @ [ExtensionNode (branchKey # k) v])
             | LeafNode k v \<Rightarrow>
                 (key @ (branchKey # k), stk1 @ [LeafNode (branchKey # k) v])));
          underOther = (\<lambda>parentKey withKey.
            (case branchNode of
               BranchNode branches v \<Rightarrow>
                 (key @ [branchKey], stk @ [withKey (parentKey @ [branchKey]), branchNode])
             | ExtensionNode k v \<Rightarrow>
                 (key @ (branchKey # k), stk @ [ExtensionNode (parentKey @ (branchKey # k)) v])
             | LeafNode k v \<Rightarrow>
                 (key @ (branchKey # k), stk @ [LeafNode (parentKey @ (branchKey # k)) v])))
      in case parentNode of
           None \<Rightarrow> underBranch stk
         | Some (BranchNode pbranches pv) \<Rightarrow> underBranch (stk @ [BranchNode pbranches pv])
         | Some (ExtensionNode pk pv) \<Rightarrow> underOther pk (\<lambda>k. ExtensionNode k pv)
         | Some (LeafNode pk pv) \<Rightarrow> underOther pk (\<lambda>k. LeafNode k pv))"

text \<open>
  The second half of \<open>_deleteNode\<close>, from "nodes on the branch" on: \<open>lastNode\<close> is by now
  a branch, given by its children and value.
\<close>

definition collapseBranch ::
  "Nibbles \<Rightarrow> item option list \<Rightarrow> item option \<Rightarrow> TrieNode option \<Rightarrow> TrieNode list \<Rightarrow>
   BatchDBOp list \<Rightarrow> Trie \<Rightarrow> (error + unit) \<times> Trie" where
  "collapseBranch key branches bvalue parentNode stk opStack t =
     (let branchNodes = getChildren branches in
      if length branchNodes = 1 then
        (let branchNode = snd (hd branchNodes); branchNodeKey = fst (hd branchNodes) in
         case lookupNode branchNode t of
           (Inl e, t1) \<Rightarrow> (Inl e, t1)
         | (Inr None, t1) \<Rightarrow> (Inr (), t1)
         | (Inr (Some foundNode), t1) \<Rightarrow>
             (let (key1, stk1) = processBranchNode key branchNodeKey foundNode parentNode stk
              in saveStack key1 stk1 opStack t1))
      else
        (let stk1 = (case parentNode of Some p \<Rightarrow> stk @ [p] | None \<Rightarrow> stk)
         in saveStack key (stk1 @ [BranchNode branches bvalue]) opStack t))"

definition pop :: "'a list \<Rightarrow> 'a option \<times> 'a list" where
  "pop xs = (if xs = [] then (None, []) else (Some (last xs), butlast xs))"

definition deleteNode :: "bytes \<Rightarrow> TrieNode list \<Rightarrow> Trie \<Rightarrow> (error + unit) \<times> Trie" where
  "deleteNode k stk t =
     (case pop stk of
        (None, stk1) \<Rightarrow> (Inl MissingLastNode, t)
      | (Some lastNode, stk1) \<Rightarrow>
          (case pop stk1 of
             (None, stk2) \<Rightarrow> set_root None t
           | (Some parentNode, stk2) \<Rightarrow>
               (let key = bufferToNibbles k in
                case lastNode of
                  BranchNode branches v \<Rightarrow>
                    collapseBranch key branches None (Some parentNode) stk2 [] t
                | _ \<Rightarrow>
                    (case parentNode of
                       BranchNode pbranches pv \<Rightarrow>
                         (let lastNodeKey = (case lastNode of LeafNode lk lv \<Rightarrow> lk
                                             | ExtensionNode lk lv \<Rightarrow> lk
                                             | BranchNode bs bv \<Rightarrow> []);
                              key1 = splice_from key (length lastNodeKey);
                              (r, opStack) = formatNode lastNode False [] True t;
                              pbranches1 = (if key1 = [] then pbranches
                                            else setBranch pbranches (last key1) None);
                              key2 = butlast key1;
                              (parentNode1, stk3) = pop stk2
                          in collapseBranch key2 pbranches1 pv parentNode1 stk3 opStack t)
                     | _ \<Rightarrow> (Inl ExpectedBranchNode, t)))))"

section \<open>The public operations\<close>

definition del :: "bytes \<Rightarrow> Trie \<Rightarrow> ((error + unit) \<times> Trie) option" where
  "del key t =
     (let appliedKey1 = appliedKey t key in
      case findPath appliedKey1 False t of
        None \<Rightarrow> None
      | Some (Inl e, t1) \<Rightarrow> Some (Inl e, t1)
      | Some (Inr p, t1) \<Rightarrow>
          (case node p of
             Some n \<Rightarrow>
               (case deleteNode appliedKey1 (stack p) t1 of
                  (Inl e, t2) \<Rightarrow> Some (Inl e, t2)
                | (Inr u, t2) \<Rightarrow> Some (Inr (), persistRoot t2))
           | None \<Rightarrow> Some (Inr (), persistRoot t1)))"

definition put :: "bytes \<Rightarrow> bytes \<Rightarrow> Trie \<Rightarrow> ((error + unit) \<times> Trie) option" where
  "put key val t =
     (if persistRootOpt t \<and> key = ROOT_DB_KEY t then Some (Inl ReservedKey, t)
      else if val = [] then del key t
      else
        (let appliedKey1 = appliedKey t key in
         if root t = EMPTY_TRIE_ROOT t then
           (case createInitialNode appliedKey1 val t of
              (Inl e, t1) \<Rightarrow> Some (Inl e, t1)
            | (Inr u, t1) \<Rightarrow> Some (Inr (), persistRoot t1))
         else
           (case findPath appliedKey1 False t of
              None \<Rightarrow> None
            | Some (Inl e, t1) \<Rightarrow> Some (Inl e, t1)
            | Some (Inr p, t1) \<Rightarrow>
                (case updateNode appliedKey1 val (remaining p) (stack p) t1 of
                   (Inl e, t2) \<Rightarrow> Some (Inl e, t2)
                 | (Inr u, t2) \<Rightarrow> Some (Inr (), persistRoot t2)))))"

text \<open>
  \<open>batch\<close>: the value of a put operation may be absent at run time, which is what
  \<open>isFalsy(op.value)\<close> catches; an empty buffer is not falsy and goes on to \<open>put\<close>.
\<close>

fun batch_loop :: "BatchDBOp list \<Rightarrow> Trie \<Rightarrow> ((error + unit) \<times> Trie) option" where
  "batch_loop [] t = Some (Inr (), t)"
| "batch_loop (PutBatch k v # ops) t =
     (if isFalsy v then Some (Inl InvalidBatchOp, t)
      else case put k (the v) t of
             None \<Rightarrow> None
           | Some (Inl e, t1) \<Rightarrow> Some (Inl e, t1)
           | Some (Inr u, t1) \<Rightarrow> batch_loop ops t1)"
| "batch_loop (DelBatch k # ops) t =
     (case del k t of
        None \<Rightarrow> None
      | Some (Inl e, t1) \<Rightarrow> Some (Inl e, t1)
      | Some (Inr u, t1) \<Rightarrow> batch_loop ops t1)"

definition batch :: "BatchDBOp list \<Rightarrow> Trie \<Rightarrow> ((error + unit) \<times> Trie) option" where
  "batch ops t =
     (case batch_loop ops t of
        None \<Rightarrow> None
      | Some (Inl e, t1) \<Rightarrow> Some (Inl e, t1)
      | Some (Inr u, t1) \<Rightarrow> Some (Inr (), persistRoot t1))"

section \<open>Proofs\<close>

text \<open>
  The constructor. An option that is not given takes its default (\<open>??\<close>); the hash
  function is always given here, the default Keccak-256 not being modelled. The reserved
  key is the module constant.
\<close>

record TrieOpts =
  opts_db :: "MapDB option"
  opts_root :: "bytes option"
  opts_deleteFromDB :: "bool option"
  opts_useHashedKeys :: "bool option"
  opts_useHashedKeysFunction :: "bytes \<Rightarrow> bytes"
  opts_persistRoot :: "bool option"

definition default_to :: "'a option \<Rightarrow> 'a \<Rightarrow> 'a" where
  "default_to v d = (case v of None \<Rightarrow> d | Some x \<Rightarrow> x)"

definition new_Trie :: "TrieOpts \<Rightarrow> bytes \<Rightarrow> error + Trie" where
  "new_Trie opts rootDbKey =
     (let t = \<lparr>db = default_to (opts_db opts) new_MapDB,
               root = opts_useHashedKeysFunction opts RLP_EMPTY_STRING,
               rootIsEmptyObject = True,
               deleteFromDB = default_to (opts_deleteFromDB opts) False,
               useHashedKeys = default_to (opts_useHashedKeys opts) False,
               useHashedKeysFunction = opts_useHashedKeysFunction opts,
               persistRootOpt = default_to (opts_persistRoot opts) False,
               ROOT_DB_KEY = rootDbKey\<rparr>
      in if isFalsy (opts_root opts) then Inr t
         else (case set_root (opts_root opts) t of (Inl e, t1) \<Rightarrow> Inl e | (Inr u, t1) \<Rightarrow> Inr t1))"

definition fromProof :: "bytes list \<Rightarrow> Trie \<Rightarrow> (error + unit) \<times> Trie" where
  "fromProof proof t =
     (let opStack = map (\<lambda>nodeValue. PutBatch (hash t nodeValue) (Some nodeValue)) proof;
          r = (if rootIsEmptyObject t \<and> opStack \<noteq> []
               then set_root (Some (hash t (hd proof))) t else (Inr (), t))
      in case r of
           (Inl e, t1) \<Rightarrow> (Inl e, t1)
         | (Inr u, t1) \<Rightarrow> (Inr (), persistRoot (t1\<lparr>db := db_batch opStack (db t1)\<rparr>)))"

definition createProof :: "bytes \<Rightarrow> Trie \<Rightarrow> ((error + bytes list) \<times> Trie) option" where
  "createProof key t =
     (case findPath (appliedKey t key) False t of
        None \<Rightarrow> None
      | Some (Inl e, t1) \<Rightarrow> Some (Inl e, t1)
      | Some (Inr p, t1) \<Rightarrow> Some (Inr (map serialize (stack p)), t1))"

definition verifyProof ::
  "bytes \<Rightarrow> bytes \<Rightarrow> bytes list \<Rightarrow> Trie \<Rightarrow> ((error + item option) \<times> Trie) option" where
  "verifyProof rootHash key proof t =
     (case new_Trie \<lparr>opts_db = None, opts_root = Some rootHash, opts_deleteFromDB = None,
                      opts_useHashedKeys = None,
                      opts_useHashedKeysFunction = useHashedKeysFunction t,
                      opts_persistRoot = None\<rparr> (ROOT_DB_KEY t) of
        Inl e \<Rightarrow> Some (Inl e, t)
      | Inr proofTrie \<Rightarrow>
          (case fromProof proof proofTrie of
             (Inl e, proofTrie1) \<Rightarrow> Some (Inl InvalidProofNodes, t)
           | (Inr u, proofTrie1) \<Rightarrow>
               (case get (appliedKey t key) True proofTrie1 of
                  None \<Rightarrow> None
                | Some (Inl e, proofTrie2) \<Rightarrow>
                    Some (Inl (if e = MissingNode then InvalidProof else e), t)
                | Some (Inr v, proofTrie2) \<Rightarrow> Some (Inr v, t))))"

section \<open>Test fixtures\<close>

text \<open>
  The hash function is an option of the trie, "swappable to support test hashes". This one
  keeps a window of 32 bytes: each input byte leaves the window at the front and enters at
  the back, mixed with the byte that left. It is no cryptographic hash, but it does not
  collide on the node bodies of the examples below; \<open>test_hash20\<close> is a hash of 20 bytes.
\<close>

definition test_hash_step :: "byte \<Rightarrow> bytes \<Rightarrow> bytes" where
  "test_hash_step b st = tl st @ [hd st * 3 + b + 1]"

definition test_hash :: "bytes \<Rightarrow> bytes" where
  "test_hash bs = fold test_hash_step bs (replicate 32 0)"


definition str :: "string \<Rightarrow> bytes" where
  "str s = map (\<lambda>c. of_nat (of_char c)) s"

text \<open>
  A fresh trie over an empty store, as the constructor builds it for a hash function and a
  \<open>persistRoot\<close> flag; the reserved key has the value \<open>__root__\<close>.
\<close>

definition fresh_trie :: "(bytes \<Rightarrow> bytes) \<Rightarrow> bool \<Rightarrow> Trie" where
  "fresh_trie h pr =
     \<lparr>db = new_MapDB, root = h RLP_EMPTY_STRING, rootIsEmptyObject = True,
      deleteFromDB = False, useHashedKeys = False, useHashedKeysFunction = h,
      persistRootOpt = pr, ROOT_DB_KEY = str ''__root__''\<rparr>"

text \<open>
  A sequence of calls on one trie: each call works on the trie the call before left, and
  the first error ends the sequence. \<open>put_all\<close> inserts pairs in the order of the list;
  \<open>then_del\<close>, \<open>then_get\<close> and \<open>root_after\<close> continue or read the outcome of a sequence.
\<close>

fun put_all :: "(bytes \<times> bytes) list \<Rightarrow> Trie \<Rightarrow> ((error + unit) \<times> Trie) option" where
  "put_all [] t = Some (Inr (), t)"
| "put_all ((k, v) # kvs) t =
     (case put k v t of
        None \<Rightarrow> None
      | Some (Inl e, t1) \<Rightarrow> Some (Inl e, t1)
      | Some (Inr u, t1) \<Rightarrow> put_all kvs t1)"

definition then_del :: "bytes \<Rightarrow> ((error + unit) \<times> Trie) option \<Rightarrow> ((error + unit) \<times> Trie) option" where
  "then_del k r = (case r of Some (Inr u, t) \<Rightarrow> del k t | _ \<Rightarrow> r)"

definition then_get :: "bytes \<Rightarrow> ((error + unit) \<times> Trie) option \<Rightarrow> (error + item option) option" where
  "then_get k r =
     (case r of
        None \<Rightarrow> None
      | Some (Inl e, t) \<Rightarrow> Some (Inl e)
      | Some (Inr u, t) \<Rightarrow> map_option fst (get k False t))"

definition root_after :: "((error + unit) \<times> Trie) option \<Rightarrow> bytes option" where
  "root_after r = (case r of Some (Inr u, t) \<Rightarrow> Some (root t) | _ \<Rightarrow> None)"

text \<open>
  "Applies each op in order", in the words of the claim about \<open>batch\<close>: the trie after
  all operations of a list, when every one of them is well formed and returns.
\<close>

fun apply_in_order :: "BatchDBOp list \<Rightarrow> Trie \<Rightarrow> Trie option" where
  "apply_in_order [] t = Some t"
| "apply_in_order (PutBatch k None # ops) t = None"
| "apply_in_order (PutBatch k (Some v) # ops) t =
     (case put k v t of Some (Inr u, t1) \<Rightarrow> apply_in_order ops t1 | _ \<Rightarrow> None)"
| "apply_in_order (DelBatch k # ops) t =
     (case del k t of Some (Inr u, t1) \<Rightarrow> apply_in_order ops t1 | _ \<Rightarrow> None)"

text \<open>
  The store of a trie is consistent when every entry that decodes as a node holds the
  canonical serialization of that node and sits under the hash of that serialization.
  \<open>proofTrie\<close> is the ephemeral trie of \<open>verifyProof\<close> once the proof nodes are in its store.
\<close>

definition store_consistent :: "Trie \<Rightarrow> bool" where
  "store_consistent t =
     (\<forall>k v n. db_get (db t) k = Some v \<longrightarrow> decodeNode v = Inr n \<longrightarrow>
        serialize n = v \<and> hash t v = k)"

definition proofTrie :: "Trie \<Rightarrow> bytes \<Rightarrow> bytes list \<Rightarrow> Trie" where
  "proofTrie t rootHash proof =
     \<lparr>db = db_batch (map (\<lambda>nodeValue. PutBatch (hash t nodeValue) (Some nodeValue)) proof) new_MapDB,
      root = rootHash, rootIsEmptyObject = False, deleteFromDB = False, useHashedKeys = False,
      useHashedKeysFunction = useHashedKeysFunction t, persistRootOpt = False,
      ROOT_DB_KEY = ROOT_DB_KEY t\<rparr>"

text \<open>
  An example trie holding \<open>do \<rightarrow> verb\<close> and \<open>dog \<rightarrow> puppy\<close>: an extension over the nibbles of
  \<open>do\<close>, whose child is a branch with the value \<open>verb\<close> and, at nibble 6, a leaf with the
  remaining nibble 7 and the value \<open>puppy\<close>. Branch and leaf are short enough to be embedded,
  so the store holds the one top-level node under its hash.
\<close>

definition example_leaf :: TrieNode where
  "example_leaf = LeafNode [7] (Buf (str ''puppy''))"

definition example_branch :: TrieNode where
  "example_branch =
     BranchNode ((replicate 16 (Some (Buf [])))[6 := Some (raw example_leaf)])
                (Some (Buf (str ''verb'')))"

definition example_extension :: TrieNode where
  "example_extension = ExtensionNode [6, 4, 6, 15] (raw example_branch)"

definition example_trie :: Trie where
  "example_trie =
     \<lparr>db = db_put (test_hash (serialize example_extension)) (serialize example_extension) new_MapDB,
      root = test_hash (serialize example_extension), rootIsEmptyObject = False,
      deleteFromDB = False, useHashedKeys = False, useHashedKeysFunction = test_hash,
      persistRootOpt = False, ROOT_DB_KEY = str ''__root__''\<rparr>"

section \<open>Well-formed nodes\<close>

text \<open>
  The sizes that RLP can encode: a byte string, and the payload of a list, of fewer than
  \<open>2 ^ 64\<close> bytes (the length of the length must fit the one prefix byte). A nibble path is
  well formed when its entries are below 16. A node is well formed when its key is, a
  branch has its sixteen slots, and its raw form can be encoded. \<open>normalize\<close> is the node
  as it comes back from decoding: the absent entries of a branch are empty byte strings.
\<close>

fun item_ok :: "item \<Rightarrow> bool" where
  "item_ok (Buf bs) = (length bs < 2 ^ 64)"
| "item_ok (Arr xs) = (list_all item_ok xs \<and> length (concat (map rlp_encode xs)) < 2 ^ 64)"

definition nibbles_ok :: "Nibbles \<Rightarrow> bool" where
  "nibbles_ok ns = list_all (\<lambda>n. n < 16) ns"

fun normalize :: "TrieNode \<Rightarrow> TrieNode" where
  "normalize (BranchNode branches v) = BranchNode (map (\<lambda>b. Some (null_item b)) branches) (Some (null_item v))"
| "normalize (ExtensionNode k v) = ExtensionNode k v"
| "normalize (LeafNode k v) = LeafNode k v"

fun node_ok :: "TrieNode \<Rightarrow> bool" where
  "node_ok (BranchNode branches v) = (length branches = 16 \<and> item_ok (raw (BranchNode branches v)))"
| "node_ok (ExtensionNode k v) = (nibbles_ok k \<and> item_ok (raw (ExtensionNode k v)))"
| "node_ok (LeafNode k v) = (nibbles_ok k \<and> item_ok (raw (LeafNode k v)))"

text \<open>
  The top-level node of the trie that holds exactly two different paths \<open>n1\<close> and \<open>n2\<close>
  with the values \<open>v1\<close> and \<open>v2\<close>: a branch where the paths part, under an extension over
  their common prefix if there is one. A path that ends where they part gives the branch its
  value, the other one hangs as a leaf under its next nibble.
\<close>

definition pair_branch :: "Trie \<Rightarrow> Nibbles \<Rightarrow> bytes \<Rightarrow> Nibbles \<Rightarrow> bytes \<Rightarrow> TrieNode" where
  "pair_branch t a v1 b v2 =
     (let f = (\<lambda>x. fst (formatNode x False [] False t));
          branches0 = (if a \<noteq> [] then setBranch (replicate 16 None) (hd a) (Some (f (LeafNode (tl a) (Buf v1))))
                       else replicate 16 None);
          bvalue0 = (if a \<noteq> [] then None else Some (Buf v1))
      in if b \<noteq> [] then BranchNode (setBranch branches0 (hd b) (Some (f (LeafNode (tl b) (Buf v2))))) bvalue0
         else BranchNode branches0 (Some (Buf v2)))"

definition pair_top :: "Trie \<Rightarrow> Nibbles \<Rightarrow> bytes \<Rightarrow> Nibbles \<Rightarrow> bytes \<Rightarrow> TrieNode" where
  "pair_top t n1 v1 n2 v2 =
     (let m = matchingNibbleLength n1 n2;
          B = pair_branch t (drop m n1) v1 (drop m n2) v2
      in if m \<noteq> 0 then ExtensionNode (take m n1) (fst (formatNode B False [] False t)) else B)"

section \<open>Node sizes\<close>
















section \<open>Reading leaves the trie as it is\<close>

lemma lookupNode_state: "lookupNode r t = (x, t') \<Longrightarrow> t' = t"
  by (auto simp: lookupNode_def split: item.splits option.splits sum.splits)

lemma walkTrie_state:
  assumes "walkTrie f tk r kp stk t = Some y"
  shows "snd y = t"
proof (rule walkTrie.raw_induct[where P="\<lambda>f tk r kp stk t y. snd y = t", OF _ assms])
  fix walk f tk r kp stk t y
  assume IH: "\<And>f tk r kp stk t y. walk f tk r kp stk t = Some y \<Longrightarrow> snd y = t"
    and step: "(case lookupNode r t of
        (Inl e, t1) \<Rightarrow>
          if e = MissingNode \<and> \<not> f
          then Some (Inr \<lparr>node = None, remaining = [], stack = stk\<rparr>, t1)
          else Some (Inl e, t1)
      | (Inr nd, t1) \<Rightarrow>
          (case onFound tk stk nd kp of
             Resolve p \<Rightarrow> Some (Inr p, t1)
           | Reject e \<Rightarrow> Some (Inl e, t1)
           | PushNodeToQueue childRef childKey stk1 \<Rightarrow> walk f tk childRef childKey stk1 t1)) = Some y"
  obtain res t1 where l: "lookupNode r t = (res, t1)" by (cases "lookupNode r t")
  then have t1: "t1 = t" by (rule lookupNode_state)
  from step l t1 show "snd y = t"
    by (auto split: sum.splits if_splits WalkStep.splits dest: IH)
qed

lemma findPath_state: "findPath key f t = Some (x, t') \<Longrightarrow> t' = t"
  using walkTrie_state by (fastforce simp: findPath_def)

lemma get_state: "get key f t = Some (x, t') \<Longrightarrow> t' = t"
  by (auto simp: get_def split: option.splits prod.splits sum.splits dest: findPath_state)

lemma createProof_state: "createProof key t = Some (x, t') \<Longrightarrow> t' = t"
  by (auto simp: createProof_def split: option.splits prod.splits sum.splits dest: findPath_state)

lemma checkRoot_state: "checkRoot r t = (x, t') \<Longrightarrow> t' = t"
  by (auto simp: checkRoot_def split: option.splits prod.splits sum.splits if_splits
      dest: lookupNode_state)

text \<open>
  C10. The read operations \<open>get\<close>, \<open>findPath\<close>, \<open>checkRoot\<close> and \<open>createProof\<close> return the
  trie they were given, whatever the key, the flag and the state of the store: the root
  field, the contents of the store and the list of write calls the store has received are
  the same after the call. (\<open>checkRoot\<close> always returns; the other three return whenever the
  walk ends.)
\<close>

theorem C10_reads_leave_the_trie_unchanged:
  "(get key f t = Some (v, t1) \<longrightarrow> t1 = t) \<and>
   (findPath key f t = Some (p, t2) \<longrightarrow> t2 = t) \<and>
   (checkRoot r t = (b, t3) \<longrightarrow> t3 = t) \<and>
   (createProof key t = Some (pr, t4) \<longrightarrow> t4 = t)"
  using get_state findPath_state checkRoot_state createProof_state by blast

lemma fresh_root_missing: "db_get (db (fresh_trie h pr)) (root (fresh_trie h pr)) = None"
  by (simp add: fresh_trie_def new_MapDB_def db_get_def)

lemma findPath_missing_root:
  "db_get (db t) (root t) = None \<Longrightarrow>
   findPath key False t = Some (Inr \<lparr>node = None, remaining = [], stack = []\<rparr>, t)"
  by (simp add: findPath_def walkTrie.simps lookupNode_def)

lemma get_missing_root:
  "db_get (db t) (root t) = None \<Longrightarrow> get key False t = Some (Inr None, t)"
  by (simp add: get_def findPath_missing_root)

lemma createProof_missing_root:
  "db_get (db t) (root t) = None \<Longrightarrow> createProof key t = Some (Inr [], t)"
  by (simp add: createProof_def findPath_missing_root)

lemma checkRoot_missing_root:
  "db_get (db t) r = None \<Longrightarrow> checkRoot r t = (Inr False, t)"
  by (simp add: checkRoot_def lookupNode_def)

theorem C10_witness:
  "get (str ''cat'') False (fresh_trie test_hash False) = Some (Inr None, fresh_trie test_hash False) \<and>
   findPath (str ''cat'') False (fresh_trie test_hash False)
     = Some (Inr \<lparr>node = None, remaining = [], stack = []\<rparr>, fresh_trie test_hash False) \<and>
   checkRoot (root (fresh_trie test_hash False)) (fresh_trie test_hash False)
     = (Inr False, fresh_trie test_hash False) \<and>
   createProof (str ''cat'') (fresh_trie test_hash False) = Some (Inr [], fresh_trie test_hash False)"
  using C10_reads_leave_the_trie_unchanged
      [of "str ''cat''" False "fresh_trie test_hash False" "Inr None" "fresh_trie test_hash False"]
    get_missing_root [OF fresh_root_missing] findPath_missing_root [OF fresh_root_missing]
    createProof_missing_root [OF fresh_root_missing] checkRoot_missing_root [OF fresh_root_missing]
  by simp

section \<open>The reserved key and the empty value\<close>

lemma put_reserved: "persistRootOpt t \<Longrightarrow> put (ROOT_DB_KEY t) v t = Some (Inl ReservedKey, t)"
  by (simp add: put_def)

lemma del_missing_root:
  "db_get (db t) (root t) = None \<Longrightarrow> del key t = Some (Inr (), persistRoot t)"
  by (simp add: del_def findPath_missing_root)

lemma persistRoot_calls:
  "persistRootOpt t \<Longrightarrow>
   calls (db (persistRoot t)) = calls (db t) @ [CallPut (appliedKey t (ROOT_DB_KEY t)) (root t)]"
  by (simp add: persistRoot_def db_put_def)

text \<open>
  C4. On a trie with \<open>persistRoot\<close>, \<open>put\<close> under the reserved key raises ReservedKey and
  leaves the trie as it was. \<open>del\<close> has no such check: on a trie whose root node is not in
  the store (a fresh trie, for one) \<open>del\<close> of the reserved key returns without error, and
  it has written the root to the store under the reserved key.
\<close>

theorem C4_del_accepts_the_reserved_key:
  "persistRootOpt t \<Longrightarrow> db_get (db t) (root t) = None \<Longrightarrow>
   put (ROOT_DB_KEY t) v t = Some (Inl ReservedKey, t) \<and>
   del (ROOT_DB_KEY t) t = Some (Inr (), persistRoot t) \<and>
   calls (db (persistRoot t)) = calls (db t) @ [CallPut (appliedKey t (ROOT_DB_KEY t)) (root t)]"
  by (simp add: put_reserved del_missing_root persistRoot_calls)

theorem C4_witness:
  "persistRootOpt (fresh_trie test_hash True) \<and>
   db_get (db (fresh_trie test_hash True)) (root (fresh_trie test_hash True)) = None \<and>
   del (str ''__root__'') (fresh_trie test_hash True)
     = Some (Inr (), persistRoot (fresh_trie test_hash True)) \<and>
   calls (db (persistRoot (fresh_trie test_hash True)))
     = [CallPut (str ''__root__'') (test_hash RLP_EMPTY_STRING)]"
  using C4_del_accepts_the_reserved_key [of "fresh_trie test_hash True"] fresh_root_missing
  by (simp add: fresh_trie_def new_MapDB_def appliedKey_def)

lemma put_of_empty_value:
  "\<not> (persistRootOpt t \<and> k = ROOT_DB_KEY t) \<Longrightarrow> put k [] t = del k t"
  by (auto simp: put_def)

text \<open>
  C6. \<open>put\<close> hands an empty value to \<open>del\<close> (\<open>put_of_empty_value\<close>), but only after its
  check of the reserved key, which \<open>del\<close> does not have. On a trie with \<open>persistRoot\<close>,
  \<open>put\<close> of the empty value under the reserved key raises ReservedKey and leaves the trie
  as it was, whereas \<open>del\<close> of that key returns without error and has written an entry to
  the store: the two calls do not have the same effect.
\<close>

theorem C6_put_of_empty_value_parts_from_del_at_the_reserved_key:
  "put (str ''__root__'') [] (fresh_trie test_hash True)
     = Some (Inl ReservedKey, fresh_trie test_hash True) \<and>
   calls (db (fresh_trie test_hash True)) = [] \<and>
   del (str ''__root__'') (fresh_trie test_hash True)
     = Some (Inr (), persistRoot (fresh_trie test_hash True)) \<and>
   calls (db (persistRoot (fresh_trie test_hash True)))
     = [CallPut (str ''__root__'') (test_hash RLP_EMPTY_STRING)]"
  using put_reserved [of "fresh_trie test_hash True" "[]"]
    del_missing_root [OF fresh_root_missing, of "str ''__root__''" test_hash True]
    persistRoot_calls [of "fresh_trie test_hash True"]
  by (simp add: fresh_trie_def new_MapDB_def appliedKey_def)

section \<open>The root setter\<close>

text \<open>
  C9, as stated, fails for the empty byte string: it is a buffer, so it is not replaced by
  the empty root, and its length 0 is not the hash length.
\<close>

theorem C9_counterexample:
  "set_root (Some []) (fresh_trie test_hash False) = (Inl InvalidRoot, fresh_trie test_hash False)"
  by (simp add: set_root_def isFalsy_def hashLen_def EMPTY_TRIE_ROOT_def hash_def fresh_trie_def
      test_hash_def test_hash_step_def RLP_EMPTY_STRING_def)

text \<open>
  C9, amended. Assigning an absent value (\<open>null\<close> or \<open>undefined\<close>) resets the root to
  \<open>EMPTY_TRIE_ROOT\<close> and raises nothing; assigning any buffer whose length differs from
  the hash length, the empty buffer among them, raises the invalid-root error and leaves
  the trie unchanged; a buffer of the hash length becomes the root.
\<close>

theorem C9_root_setter:
  "set_root None t = (Inr (), t\<lparr>root := EMPTY_TRIE_ROOT t, rootIsEmptyObject := True\<rparr>) \<and>
   (length v \<noteq> hashLen t \<longrightarrow> set_root (Some v) t = (Inl InvalidRoot, t)) \<and>
   (length v = hashLen t \<longrightarrow> set_root (Some v) t = (Inr (), t\<lparr>root := v, rootIsEmptyObject := False\<rparr>))"
  by (simp add: set_root_def isFalsy_def hashLen_def)

theorem C9_witness:
  "length (str ''abc'') \<noteq> hashLen (fresh_trie test_hash False) \<and>
   set_root (Some (str ''abc'')) (fresh_trie test_hash False) = (Inl InvalidRoot, fresh_trie test_hash False) \<and>
   length (replicate 32 (7::byte)) = hashLen (fresh_trie test_hash False) \<and>
   root (snd (set_root (Some (replicate 32 7)) (fresh_trie test_hash False))) = replicate 32 7"
proof -
  have h: "hashLen (fresh_trie test_hash False) = 32"
    by (simp add: hashLen_def EMPTY_TRIE_ROOT_def hash_def fresh_trie_def
        test_hash_def test_hash_step_def RLP_EMPTY_STRING_def)
  show ?thesis
    using C9_root_setter [of "fresh_trie test_hash False" "str ''abc''"]
      C9_root_setter [of "fresh_trie test_hash False" "replicate 32 7"] h
    by (simp add: str_def)
qed

section \<open>Batches\<close>

lemma batch_loop_in_order:
  "apply_in_order ops t = Some t1 \<Longrightarrow> batch_loop ops t = Some (Inr (), t1)"
proof (induction ops t rule: apply_in_order.induct)
  case (3 k v ops t)
  then show ?case
    by (auto simp: isFalsy_def split: option.splits prod.splits sum.splits)
next
  case (4 k ops t)
  then show ?case
    by (auto split: option.splits prod.splits sum.splits)
qed simp_all

lemma batch_loop_absent_value:
  "apply_in_order pre t = Some t1 \<Longrightarrow>
   batch_loop (pre @ PutBatch k None # post) t = Some (Inl InvalidBatchOp, t1)"
proof (induction pre t rule: apply_in_order.induct)
  case (3 k' v ops t)
  then show ?case
    by (auto simp: isFalsy_def split: option.splits prod.splits sum.splits)
next
  case (4 k' ops t)
  then show ?case
    by (auto split: option.splits prod.splits sum.splits)
qed (simp_all add: isFalsy_def)

text \<open>
  C8, as stated, fails: a put operation whose value is the empty byte string is not
  rejected. On a fresh trie the batch returns without error (the operation went to \<open>put\<close>,
  which treats the empty value as a delete).
\<close>

theorem C8_counterexample:
  "batch [PutBatch (str ''do'') (Some [])] (fresh_trie test_hash False)
     = Some (Inr (), fresh_trie test_hash False)"
proof -
  have "del (str ''do'') (fresh_trie test_hash False) = Some (Inr (), fresh_trie test_hash False)"
    using del_missing_root [OF fresh_root_missing, of "str ''do''" test_hash False]
    by (simp add: persistRoot_def fresh_trie_def)
  then show ?thesis
    by (simp add: batch_def put_def isFalsy_def persistRoot_def fresh_trie_def)
qed

text \<open>
  C8, amended. \<open>batch\<close> raises InvalidBatchOp at a put operation whose value is absent
  (\<open>null\<close> or \<open>undefined\<close>), once the operations before it have been applied, and the trie
  keeps what they did. A put operation with the empty byte string is not rejected: it is
  \<open>put\<close> of the empty value, that is a delete. A batch whose operations all have a value
  and all return without error applies them in order, persists the root and succeeds.
\<close>

theorem C8_batch:
  "(apply_in_order pre t = Some t1 \<longrightarrow>
      batch (pre @ PutBatch k None # post) t = Some (Inl InvalidBatchOp, t1)) \<and>
   (apply_in_order ops t = Some t2 \<longrightarrow> batch ops t = Some (Inr (), persistRoot t2)) \<and>
   (\<not> (persistRootOpt t \<and> k = ROOT_DB_KEY t) \<longrightarrow>
      batch [PutBatch k (Some [])] t = batch [DelBatch k] t)"
  by (auto simp: batch_def batch_loop_in_order batch_loop_absent_value put_def isFalsy_def)

lemma apply_in_order_example:
  "apply_in_order [PutBatch (str ''do'') (Some (str ''verb''))] (fresh_trie test_hash False) \<noteq> None"
proof -
  have "\<not> Option.is_none
      (apply_in_order [PutBatch (str ''do'') (Some (str ''verb''))] (fresh_trie test_hash False))"
    by code_simp
  then show ?thesis by (simp add: Option.is_none_def)
qed

theorem C8_witness:
  "batch [PutBatch (str ''do'') (Some (str ''verb'')), PutBatch (str ''dog'') None]
       (fresh_trie test_hash False)
     = Some (Inl InvalidBatchOp,
         the (apply_in_order [PutBatch (str ''do'') (Some (str ''verb''))] (fresh_trie test_hash False))) \<and>
   batch [PutBatch (str ''do'') (Some (str ''verb''))] (fresh_trie test_hash False)
     = Some (Inr (), persistRoot
         (the (apply_in_order [PutBatch (str ''do'') (Some (str ''verb''))] (fresh_trie test_hash False)))) \<and>
   batch [PutBatch (str ''dog'') (Some [])] (fresh_trie test_hash False)
     = batch [DelBatch (str ''dog'')] (fresh_trie test_hash False)"
proof -
  let ?t = "fresh_trie test_hash False"
  let ?pre = "[PutBatch (str ''do'') (Some (str ''verb''))]"
  from apply_in_order_example obtain t1 where t1: "apply_in_order ?pre ?t = Some t1" by blast
  have np: "\<not> persistRootOpt ?t" by (simp add: fresh_trie_def)
  from C8_batch [of ?pre ?t t1 "str ''dog''" "[]" ?pre t1] t1 np show ?thesis by simp
qed

section \<open>Writing a node\<close>


section \<open>Deleting the value of the root branch\<close>

text \<open>
  C3. The keys \<open>a\<close> and \<open>q\<close> part at their first nibble, so the root of the trie holding
  them is a branch, and the value of the empty key is the value of that branch. Deleting
  the empty key then takes the path of \<open>_deleteNode\<close> for "the root has to be a leaf": the
  root becomes the empty root, and \<open>a\<close>, retrievable before, is gone.
\<close>

theorem C3_delete_at_root_branch_empties_the_trie:
  "then_get (str ''a'')
     (put_all [(str ''a'', str ''1''), (str ''q'', str ''2''), ([], str ''3'')]
        (fresh_trie test_hash False)) = Some (Inr (Some (Buf (str ''1'')))) \<and>
   root_after (then_del []
     (put_all [(str ''a'', str ''1''), (str ''q'', str ''2''), ([], str ''3'')]
        (fresh_trie test_hash False))) = Some (EMPTY_TRIE_ROOT (fresh_trie test_hash False)) \<and>
   then_get (str ''a'') (then_del []
     (put_all [(str ''a'', str ''1''), (str ''q'', str ''2''), ([], str ''3'')]
        (fresh_trie test_hash False))) = Some (Inr None)"
  by code_simp

section \<open>Proofs\<close>

lemma verifyProof_unfold:
  "length rootHash = hashLen t \<Longrightarrow>
   verifyProof rootHash key proof t =
     (case get (appliedKey t key) True (proofTrie t rootHash proof) of
        None \<Rightarrow> None
      | Some (Inl e, pt) \<Rightarrow> Some (Inl (if e = MissingNode then InvalidProof else e), t)
      | Some (Inr v, pt) \<Rightarrow> Some (Inr v, t))"
  by (simp add: verifyProof_def new_Trie_def isFalsy_def set_root_def hashLen_def
      EMPTY_TRIE_ROOT_def hash_def fromProof_def persistRoot_def proofTrie_def default_to_def Let_def)

lemma verifyProof_empty_proof:
  "length rootHash = hashLen t \<Longrightarrow> verifyProof rootHash key [] t = Some (Inl InvalidProof, t)"
  by (simp add: verifyProof_unfold get_def findPath_def walkTrie.simps lookupNode_def
      proofTrie_def db_batch_def new_MapDB_def db_get_def)

lemma proof_db_lookup:
  "inj_on h (set bodies) \<Longrightarrow> b \<in> set bodies \<Longrightarrow>
   foldl apply_op m (map (\<lambda>nodeValue. PutBatch (h nodeValue) (Some nodeValue)) bodies) (h b) = Some b"
proof (induction bodies arbitrary: b rule: rev_induct)
  case Nil
  then show ?case by simp
next
  case (snoc x xs)
  show ?case
  proof (cases "h b = h x")
    case True
    with snoc.prems have "b = x" by (auto simp: inj_on_def)
    then show ?thesis by simp
  next
    case False
    with snoc.prems have "b \<in> set xs" "inj_on h (set xs)" by (auto simp: inj_on_def)
    with snoc.IH False show ?thesis by simp
  qed
qed

lemma onFound_Resolve:
  "onFound tk stk nd kp = Resolve p \<Longrightarrow> \<exists>n. nd = Some n \<and> stack p = stk @ [n]"
  by (auto simp: onFound_def Let_def split: option.splits TrieNode.splits if_splits)

lemma onFound_Push:
  "onFound tk stk nd kp = PushNodeToQueue c ck stk1 \<Longrightarrow> \<exists>n. nd = Some n \<and> stk1 = stk @ [n]"
  by (auto simp: onFound_def Let_def split: option.splits TrieNode.splits if_splits)

lemma lookupNode_transfer:
  "lookupNode r t = (Inr (Some n), t1) \<Longrightarrow> store_consistent t \<Longrightarrow>
   db_get (db tp) (hash t (serialize n)) = Some (serialize n) \<Longrightarrow>
   lookupNode r tp = (Inr (Some n), tp)"
  by (auto simp: lookupNode_def store_consistent_def split: item.splits sum.splits option.splits)

lemma walkTrie_sim:
  assumes w: "walkTrie f tk r kp stk t = Some y"
  shows "\<forall>p. fst y = Inr p \<longrightarrow>
           set stk \<subseteq> set (stack p) \<and>
           (f \<and> store_consistent t \<and>
             (\<forall>n\<in>set (stack p). db_get (db tp) (hash t (serialize n)) = Some (serialize n))
            \<longrightarrow> walkTrie True tk r kp stk tp = Some (Inr p, tp))"
proof (rule walkTrie.raw_induct[where P="\<lambda>f tk r kp stk t y. \<forall>p. fst y = Inr p \<longrightarrow>
           set stk \<subseteq> set (stack p) \<and>
           (f \<and> store_consistent t \<and>
             (\<forall>n\<in>set (stack p). db_get (db tp) (hash t (serialize n)) = Some (serialize n))
            \<longrightarrow> walkTrie True tk r kp stk tp = Some (Inr p, tp))", OF _ w])
  fix walk f tk r kp stk t y
  assume IH: "\<And>f tk r kp stk t y. walk f tk r kp stk t = Some y \<Longrightarrow>
         \<forall>p. fst y = Inr p \<longrightarrow>
           set stk \<subseteq> set (stack p) \<and>
           (f \<and> store_consistent t \<and>
             (\<forall>n\<in>set (stack p). db_get (db tp) (hash t (serialize n)) = Some (serialize n))
            \<longrightarrow> walkTrie True tk r kp stk tp = Some (Inr p, tp))"
    and step: "(case lookupNode r t of
        (Inl e, t1) \<Rightarrow>
          if e = MissingNode \<and> \<not> f
          then Some (Inr \<lparr>node = None, remaining = [], stack = stk\<rparr>, t1)
          else Some (Inl e, t1)
      | (Inr nd, t1) \<Rightarrow>
          (case onFound tk stk nd kp of
             Resolve p \<Rightarrow> Some (Inr p, t1)
           | Reject e \<Rightarrow> Some (Inl e, t1)
           | PushNodeToQueue childRef childKey stk1 \<Rightarrow> walk f tk childRef childKey stk1 t1)) = Some y"
  show "\<forall>p. fst y = Inr p \<longrightarrow>
           set stk \<subseteq> set (stack p) \<and>
           (f \<and> store_consistent t \<and>
             (\<forall>n\<in>set (stack p). db_get (db tp) (hash t (serialize n)) = Some (serialize n))
            \<longrightarrow> walkTrie True tk r kp stk tp = Some (Inr p, tp))"
  proof (intro allI impI)
    fix p assume yp: "fst y = Inr p"
    obtain res t1 where l: "lookupNode r t = (res, t1)" by (cases "lookupNode r t")
    show "set stk \<subseteq> set (stack p) \<and>
           (f \<and> store_consistent t \<and>
             (\<forall>n\<in>set (stack p). db_get (db tp) (hash t (serialize n)) = Some (serialize n))
            \<longrightarrow> walkTrie True tk r kp stk tp = Some (Inr p, tp))"
    proof (cases res)
      case (Inl e)
      with step l yp show ?thesis by (auto split: if_splits)
    next
      case (Inr nd)
      from l have t1: "t1 = t" by (rule lookupNode_state)
      show ?thesis
      proof (cases "onFound tk stk nd kp")
        case (Resolve p')
        with step l Inr yp have pp: "p' = p" by auto
        from onFound_Resolve [OF Resolve] pp obtain n where n: "nd = Some n" "stack p = stk @ [n]"
          by blast
        show ?thesis
        proof (intro conjI impI)
          show "set stk \<subseteq> set (stack p)" using n by auto
        next
          assume a: "f \<and> store_consistent t \<and>
             (\<forall>n\<in>set (stack p). db_get (db tp) (hash t (serialize n)) = Some (serialize n))"
          with n have "db_get (db tp) (hash t (serialize n)) = Some (serialize n)" by simp
          with lookupNode_transfer [of r t n t1 tp] l Inr n a
          have "lookupNode r tp = (Inr (Some n), tp)" by simp
          with Resolve pp n show "walkTrie True tk r kp stk tp = Some (Inr p, tp)"
            by (simp add: walkTrie.simps)
        qed
      next
        case (Reject e)
        with step l Inr yp show ?thesis by auto
      next
        case (PushNodeToQueue c ck stk1)
        with step l Inr t1 have sub: "walk f tk c ck stk1 t = Some y" by simp
        from onFound_Push [OF PushNodeToQueue] obtain n where n: "nd = Some n" "stk1 = stk @ [n]"
          by blast
        from IH [OF sub] yp have ih: "set stk1 \<subseteq> set (stack p)"
          "f \<and> store_consistent t \<and>
             (\<forall>n\<in>set (stack p). db_get (db tp) (hash t (serialize n)) = Some (serialize n))
            \<longrightarrow> walkTrie True tk c ck stk1 tp = Some (Inr p, tp)" by blast+
        show ?thesis
        proof (intro conjI impI)
          show "set stk \<subseteq> set (stack p)" using ih(1) n by auto
        next
          assume a: "f \<and> store_consistent t \<and>
             (\<forall>n\<in>set (stack p). db_get (db tp) (hash t (serialize n)) = Some (serialize n))"
          from ih(1) n have "n \<in> set (stack p)" by auto
          with a have "db_get (db tp) (hash t (serialize n)) = Some (serialize n)" by simp
          with lookupNode_transfer [of r t n t1 tp] l Inr n a
          have "lookupNode r tp = (Inr (Some n), tp)" by simp
          with PushNodeToQueue n ih(2) a show "walkTrie True tk r kp stk tp = Some (Inr p, tp)"
            by (simp add: walkTrie.simps)
        qed
      qed
    qed
  qed
qed


lemma walkTrie_throw_to_swallow:
  assumes w: "walkTrie f tk r kp stk t = Some y"
  shows "f \<longrightarrow> (\<forall>p. fst y = Inr p \<longrightarrow> walkTrie False tk r kp stk t = Some y)"
proof (rule walkTrie.raw_induct[where P="\<lambda>f tk r kp stk t y.
     f \<longrightarrow> (\<forall>p. fst y = Inr p \<longrightarrow> walkTrie False tk r kp stk t = Some y)", OF _ w])
  fix walk f tk r kp stk t y
  assume IH: "\<And>f tk r kp stk t y. walk f tk r kp stk t = Some y \<Longrightarrow>
         f \<longrightarrow> (\<forall>p. fst y = Inr p \<longrightarrow> walkTrie False tk r kp stk t = Some y)"
    and step: "(case lookupNode r t of
        (Inl e, t1) \<Rightarrow>
          if e = MissingNode \<and> \<not> f
          then Some (Inr \<lparr>node = None, remaining = [], stack = stk\<rparr>, t1)
          else Some (Inl e, t1)
      | (Inr nd, t1) \<Rightarrow>
          (case onFound tk stk nd kp of
             Resolve p \<Rightarrow> Some (Inr p, t1)
           | Reject e \<Rightarrow> Some (Inl e, t1)
           | PushNodeToQueue childRef childKey stk1 \<Rightarrow> walk f tk childRef childKey stk1 t1)) = Some y"
  obtain res t1 where l: "lookupNode r t = (res, t1)" by (cases "lookupNode r t")
  show "f \<longrightarrow> (\<forall>p. fst y = Inr p \<longrightarrow> walkTrie False tk r kp stk t = Some y)"
  proof (intro impI allI)
    fix p assume f: f and yp: "fst y = Inr p"
    show "walkTrie False tk r kp stk t = Some y"
    proof (cases res)
      case (Inl e)
      with step l yp f show ?thesis by (auto split: if_splits)
    next
      case (Inr nd)
      show ?thesis
      proof (cases "onFound tk stk nd kp")
        case (Resolve p')
        with step l Inr show ?thesis by (simp add: walkTrie.simps)
      next
        case (Reject e)
        with step l Inr show ?thesis by (simp add: walkTrie.simps)
      next
        case (PushNodeToQueue c ck stk1)
        with step l Inr have sub: "walk f tk c ck stk1 t1 = Some y" by simp
        from IH [OF sub] f yp have "walkTrie False tk c ck stk1 t1 = Some y" by blast
        with PushNodeToQueue l Inr show ?thesis by (simp add: walkTrie.simps)
      qed
    qed
  qed
qed

lemma verify_created_proof:
  assumes cons: "store_consistent t"
    and len: "length (root t) = hashLen t"
    and path: "findPath (appliedKey t key) True t = Some (Inr p, t)"
    and inj: "inj_on (hash t) (serialize ` set (stack p))"
  shows "createProof key t = Some (Inr (map serialize (stack p)), t) \<and>
     (\<exists>v. get key False t = Some (Inr v, t) \<and>
          verifyProof (root t) key (map serialize (stack p)) t = Some (Inr v, t))"
proof -
  let ?k = "appliedKey t key"
  let ?bodies = "map serialize (stack p)"
  let ?tp = "proofTrie t (root t) ?bodies"
  from path have w: "walkTrie True (bufferToNibbles ?k) (Buf (root t)) [] [] t = Some (Inr p, t)"
    by (simp add: findPath_def)
  from walkTrie_throw_to_swallow [OF w]
  have w2: "findPath ?k False t = Some (Inr p, t)" by (simp add: findPath_def)
  have dbp: "\<forall>n\<in>set (stack p). db_get (db ?tp) (hash t (serialize n)) = Some (serialize n)"
  proof
    fix n assume "n \<in> set (stack p)"
    then have "serialize n \<in> set ?bodies" by simp
    with proof_db_lookup [of "hash t" ?bodies "serialize n" Map.empty] inj
    show "db_get (db ?tp) (hash t (serialize n)) = Some (serialize n)"
      by (simp add: proofTrie_def db_batch_def db_get_def new_MapDB_def)
  qed
  from walkTrie_sim [OF w, of ?tp] cons dbp
  have "walkTrie True (bufferToNibbles ?k) (Buf (root t)) [] [] ?tp = Some (Inr p, ?tp)" by simp
  then have g: "get ?k True ?tp = Some (Inr (case node p of
                       Some n \<Rightarrow> if remaining p = [] then node_value n else None
                     | None \<Rightarrow> None), ?tp)"
    by (simp add: get_def findPath_def appliedKey_def proofTrie_def)
  from w2 have g2: "get key False t = Some (Inr (case node p of
                       Some n \<Rightarrow> if remaining p = [] then node_value n else None
                     | None \<Rightarrow> None), t)"
    by (simp add: get_def)
  from w2 have c: "createProof key t = Some (Inr ?bodies, t)" by (simp add: createProof_def)
  from g g2 c len show ?thesis by (simp add: verifyProof_unfold)
qed


lemma verifyProof_missing_node:
  "length rootHash = hashLen t \<Longrightarrow>
   get (appliedKey t key) True (proofTrie t rootHash bodies) = Some (Inl MissingNode, pt) \<Longrightarrow>
   verifyProof rootHash key bodies t = Some (Inl InvalidProof, t)"
  by (simp add: verifyProof_unfold)

lemma fresh_hashLen: "length (root (fresh_trie h pr)) = hashLen (fresh_trie h pr)"
  by (simp add: fresh_trie_def hashLen_def EMPTY_TRIE_ROOT_def hash_def)

text \<open>
  C7, as stated, fails on the empty trie: its root node is not in the store, \<open>get\<close> swallows
  the missing node and returns nothing, the proof is the empty list, and verification, which
  asks for missing nodes to be thrown, raises InvalidProof.
\<close>

theorem C7_counterexample:
  "get (str ''cat'') False (fresh_trie test_hash False) = Some (Inr None, fresh_trie test_hash False) \<and>
   createProof (str ''cat'') (fresh_trie test_hash False) = Some (Inr [], fresh_trie test_hash False) \<and>
   verifyProof (root (fresh_trie test_hash False)) (str ''cat'') [] (fresh_trie test_hash False)
     = Some (Inl InvalidProof, fresh_trie test_hash False)"
  using get_missing_root [OF fresh_root_missing, of "str ''cat''" test_hash False]
    createProof_missing_root [OF fresh_root_missing, of "str ''cat''" test_hash False]
    verifyProof_empty_proof [OF fresh_hashLen, of test_hash False "str ''cat''"]
  by simp

text \<open>
  C7, amended. Take a trie whose store is consistent (every entry that decodes as a node is
  the canonical serialization of that node, under its hash) and whose root has the hash
  length, and a key whose path resolves with every node on it found, the hash function not
  colliding on the nodes of that path. Then \<open>createProof\<close> returns the serialized nodes of
  the path, and \<open>verifyProof\<close> of the root, the key and that proof succeeds and returns
  exactly what \<open>get\<close> returns: the value when the key is present, nothing when it is absent.
  And for any root and proof: when a node is missing during verification, \<open>verifyProof\<close>
  raises InvalidProof and returns no value.
\<close>

theorem C7_verify_returns_get:
  "(store_consistent t \<and> length (root t) = hashLen t \<and>
    findPath (appliedKey t key) True t = Some (Inr p, t) \<and>
    inj_on (hash t) (serialize ` set (stack p)) \<longrightarrow>
      createProof key t = Some (Inr (map serialize (stack p)), t) \<and>
      (\<exists>v. get key False t = Some (Inr v, t) \<and>
           verifyProof (root t) key (map serialize (stack p)) t = Some (Inr v, t))) \<and>
   (length rootHash = hashLen t \<and>
    get (appliedKey t key) True (proofTrie t rootHash bodies) = Some (Inl MissingNode, pt) \<longrightarrow>
      verifyProof rootHash key bodies t = Some (Inl InvalidProof, t))"
  using verify_created_proof verifyProof_missing_node by blast

lemma example_store_consistent: "store_consistent example_trie"
proof -
  have "case decodeNode (serialize example_extension) of
          Inl e \<Rightarrow> False | Inr n \<Rightarrow> serialize n = serialize example_extension"
    by code_simp
  then show ?thesis
    by (auto simp: store_consistent_def example_trie_def db_put_def db_get_def new_MapDB_def
        hash_def split: if_splits sum.splits)
qed

lemma example_path_dog:
  "findPath (appliedKey example_trie (str ''dog'')) True example_trie
     = Some (Inr \<lparr>node = Some example_leaf, remaining = [],
                  stack = [example_extension, example_branch, example_leaf]\<rparr>, example_trie)"
proof -
  have "map_option fst (findPath (appliedKey example_trie (str ''dog'')) True example_trie)
     = Some (Inr \<lparr>node = Some example_leaf, remaining = [],
                  stack = [example_extension, example_branch, example_leaf]\<rparr>)"
    by code_simp
  then show ?thesis using findPath_state by fastforce
qed

lemma example_path_cat:
  "findPath (appliedKey example_trie (str ''cat'')) True example_trie
     = Some (Inr \<lparr>node = None, remaining = bufferToNibbles (str ''cat''),
                  stack = [example_extension]\<rparr>, example_trie)"
proof -
  have "map_option fst (findPath (appliedKey example_trie (str ''cat'')) True example_trie)
     = Some (Inr \<lparr>node = None, remaining = bufferToNibbles (str ''cat''),
                  stack = [example_extension]\<rparr>)"
    by code_simp
  then show ?thesis using findPath_state by fastforce
qed

lemma example_get_dog:
  "get (str ''dog'') False example_trie = Some (Inr (Some (Buf (str ''puppy''))), example_trie)"
proof -
  have "map_option fst (get (str ''dog'') False example_trie) = Some (Inr (Some (Buf (str ''puppy''))))"
    by code_simp
  then show ?thesis using get_state by fastforce
qed

lemma example_get_cat:
  "get (str ''cat'') False example_trie = Some (Inr None, example_trie)"
proof -
  have "map_option fst (get (str ''cat'') False example_trie) = Some (Inr None)"
    by code_simp
  then show ?thesis using get_state by fastforce
qed

lemma example_is_put_result:
  "root_after (put_all [(str ''do'', str ''verb''), (str ''dog'', str ''puppy'')]
     (fresh_trie test_hash False)) = Some (root example_trie)"
  by code_simp

theorem C7_witness:
  "verifyProof (root example_trie) (str ''dog'')
       (map serialize [example_extension, example_branch, example_leaf]) example_trie
     = Some (Inr (Some (Buf (str ''puppy''))), example_trie) \<and>
   verifyProof (root example_trie) (str ''cat'') (map serialize [example_extension]) example_trie
     = Some (Inr None, example_trie) \<and>
   verifyProof (root example_trie) (str ''dog'') [] example_trie
     = Some (Inl InvalidProof, example_trie)"
proof -
  let ?t = example_trie
  let ?pd = "\<lparr>node = Some example_leaf, remaining = [],
              stack = [example_extension, example_branch, example_leaf]\<rparr>"
  let ?pc = "\<lparr>node = None, remaining = bufferToNibbles (str ''cat''), stack = [example_extension]\<rparr>"
  have len: "length (root ?t) = hashLen ?t" by code_simp
  have injd: "inj_on (hash ?t) (serialize ` set (stack ?pd))" by code_simp
  have injc: "inj_on (hash ?t) (serialize ` set (stack ?pc))" by code_simp
  have miss: "get (appliedKey ?t (str ''dog'')) True (proofTrie ?t (root ?t) [])
                = Some (Inl MissingNode, proofTrie ?t (root ?t) [])"
    by (simp add: get_def findPath_def walkTrie.simps lookupNode_def proofTrie_def db_batch_def
        new_MapDB_def db_get_def)
  from C7_verify_returns_get [of ?t "str ''dog''" ?pd "root ?t" "[]" "proofTrie ?t (root ?t) []"]
    example_store_consistent len example_path_dog injd example_get_dog miss
  have a: "verifyProof (root ?t) (str ''dog'') (map serialize (stack ?pd)) ?t
             = Some (Inr (Some (Buf (str ''puppy''))), ?t)"
    and c: "verifyProof (root ?t) (str ''dog'') [] ?t = Some (Inl InvalidProof, ?t)"
    by auto
  from C7_verify_returns_get [of ?t "str ''cat''" ?pc "root ?t" "[]" "proofTrie ?t (root ?t) []"]
    example_store_consistent len example_path_cat injc example_get_cat
  have b: "verifyProof (root ?t) (str ''cat'') (map serialize (stack ?pc)) ?t = Some (Inr None, ?t)"
    by auto
  from a b c show ?thesis by simp
qed

section \<open>The codec round trip\<close>

lemma be_bytes_0 [simp]: "be_bytes 0 = []"
  by (simp add: be_bytes.simps)

lemma be_bytes_pos: "0 < n \<Longrightarrow> be_bytes n = be_bytes (n div 256) @ [of_nat (n mod 256)]"
  by (subst be_bytes.simps) simp

lemma be_bytes_nonempty: "0 < n \<Longrightarrow> be_bytes n \<noteq> []"
  by (simp add: be_bytes_pos)

lemma unat_byte_of_nat: "n < 256 \<Longrightarrow> unat (of_nat n :: byte) = n"
  by (simp add: unat_of_nat)

lemma be_bytes_value: "foldl (\<lambda>a x. a * 256 + unat x) 0 (be_bytes n) = n"
proof (induction n rule: be_bytes.induct)
  case (1 n)
  show ?case
  proof (cases "n = 0")
    case True
    then show ?thesis by simp
  next
    case False
    then have "be_bytes n = be_bytes (n div 256) @ [of_nat (n mod 256)]" by (simp add: be_bytes_pos)
    with 1 False show ?thesis by (simp add: unat_byte_of_nat)
  qed
qed

lemma be_bytes_hd: "0 < n \<Longrightarrow> hd (be_bytes n) \<noteq> 0"
proof (induction n rule: be_bytes.induct)
  case (1 n)
  show ?case
  proof (cases "n div 256 = 0")
    case True
    with 1 have "n < 256" "be_bytes n = [of_nat n]" by (auto simp: be_bytes_pos div_eq_0_iff)
    moreover from this 1 have "unat (of_nat n :: byte) \<noteq> 0" by (simp add: unat_byte_of_nat)
    ultimately show ?thesis by auto
  next
    case False
    with 1 have "hd (be_bytes (n div 256)) \<noteq> 0" "be_bytes (n div 256) \<noteq> []"
      by (auto simp: be_bytes_nonempty)
    with 1 show ?thesis by (simp add: be_bytes_pos)
  qed
qed

lemma be_bytes_length: "n < 256 ^ k \<Longrightarrow> length (be_bytes n) \<le> k"
proof (induction k arbitrary: n)
  case 0
  then show ?case by simp
next
  case (Suc k)
  show ?case
  proof (cases "n = 0")
    case True
    then show ?thesis by simp
  next
    case False
    from Suc.prems have "n div 256 < 256 ^ k" by (simp add: less_mult_imp_div_less mult.commute)
    from Suc.IH [OF this] False show ?thesis by (simp add: be_bytes_pos)
  qed
qed

lemma decodeLength_be_bytes: "0 < n \<Longrightarrow> decodeLength (be_bytes n) = Inr n"
  using be_bytes_hd [of n] be_bytes_nonempty [of n] be_bytes_value [of n]
  by (auto simp: decodeLength_def split: list.splits)

lemma be_bytes_length8: "n < 2 ^ 64 \<Longrightarrow> length (be_bytes n) \<le> 8"
  using be_bytes_length [of n 8] by simp

lemma rlp_encode_nonempty: "rlp_encode x \<noteq> []"
  by (cases x) (auto simp: encodeLength_def Let_def)

lemma decode_short_string:
  assumes "length bs < 56" "\<not> (length bs = 1 \<and> hd bs < 0x80)"
  shows "rlp_decode_item ((of_nat (length bs + 128) # bs) @ rest) = Inr (Buf bs, rest)"
proof -
  have u: "unat (of_nat (length bs + 128) :: byte) = length bs + 128"
    by (rule unat_byte_of_nat) (use assms(1) in simp)
  have hd: "length bs = 1 \<Longrightarrow> hd (bs @ rest) = hd bs" by (cases bs) auto
  show ?thesis using assms hd
    by (auto simp: rlp_decode_item.simps u Let_def simp del: of_nat_add)
qed

lemma decode_long_string:
  assumes "56 \<le> length bs" "length bs < 2 ^ 64"
  shows "rlp_decode_item ((of_nat (183 + length (be_bytes (length bs))) # be_bytes (length bs) @ bs) @ rest)
           = Inr (Buf bs, rest)"
proof -
  let ?l = "length (be_bytes (length bs))"
  have l8: "?l \<le> 8" using assms(2) by (rule be_bytes_length8)
  have pos: "0 < length bs" using assms(1) by (cases bs) auto
  then have ne: "be_bytes (length bs) \<noteq> []" by (rule be_bytes_nonempty)
  then have l1: "1 \<le> ?l" by (simp add: Suc_le_eq)
  have u: "unat (of_nat (183 + ?l) :: byte) = 183 + ?l"
    by (rule unat_byte_of_nat) (use l8 in simp)
  have d: "decodeLength (be_bytes (length bs)) = Inr (length bs)"
    using pos by (rule decodeLength_be_bytes)
  show ?thesis using assms l8 l1 d ne
    by (simp add: rlp_decode_item.simps u Let_def del: of_nat_add)
qed

lemma decode_short_list:
  assumes "length payload < 56" "rlp_decode_items payload = Inr xs"
  shows "rlp_decode_item ((of_nat (length payload + 192) # payload) @ rest) = Inr (Arr xs, rest)"
proof -
  have u: "unat (of_nat (length payload + 192) :: byte) = length payload + 192"
    by (rule unat_byte_of_nat) (use assms(1) in simp)
  show ?thesis using assms
    by (simp add: rlp_decode_item.simps u Let_def del: of_nat_add)
qed

lemma decode_long_list:
  assumes "56 \<le> length payload" "length payload < 2 ^ 64" "rlp_decode_items payload = Inr xs"
  shows "rlp_decode_item ((of_nat (247 + length (be_bytes (length payload))) # be_bytes (length payload) @ payload) @ rest)
           = Inr (Arr xs, rest)"
proof -
  let ?l = "length (be_bytes (length payload))"
  have l8: "?l \<le> 8" using assms(2) by (rule be_bytes_length8)
  have pos: "0 < length payload" using assms(1) by (cases payload) auto
  then have ne: "be_bytes (length payload) \<noteq> []" by (rule be_bytes_nonempty)
  then have l1: "1 \<le> ?l" by (simp add: Suc_le_eq)
  have u: "unat (of_nat (247 + ?l) :: byte) = 247 + ?l"
    by (rule unat_byte_of_nat) (use l8 in simp)
  have d: "decodeLength (be_bytes (length payload)) = Inr (length payload)"
    using pos by (rule decodeLength_be_bytes)
  show ?thesis using assms l8 l1 d ne
    by (simp add: rlp_decode_item.simps u Let_def del: of_nat_add)
qed

lemma decode_items_concat:
  assumes "\<And>x rest. x \<in> set xs \<Longrightarrow> rlp_decode_item (rlp_encode x @ rest) = Inr (x, rest)"
  shows "rlp_decode_items (concat (map rlp_encode xs)) = Inr xs"
  using assms
proof (induction xs)
  case Nil
  then show ?case by (simp add: rlp_decode_items.simps)
next
  case (Cons x xs)
  have ne: "rlp_encode x \<noteq> []" by (rule rlp_encode_nonempty)
  have "rlp_decode_item (rlp_encode x @ concat (map rlp_encode xs)) = Inr (x, concat (map rlp_encode xs))"
    using Cons.prems by simp
  moreover have "rlp_decode_items (concat (map rlp_encode xs)) = Inr xs"
    using Cons by simp
  ultimately show ?case using ne
    by (subst rlp_decode_items.simps) simp
qed

lemma rlp_decode_item_encode:
  "item_ok x \<Longrightarrow> rlp_decode_item (rlp_encode x @ rest) = Inr (x, rest)"
proof (induction x arbitrary: rest)
  case (Buf bs)
  show ?case
  proof (cases "length bs = 1 \<and> hd bs < 0x80")
    case True
    then obtain b where b: "bs = [b]" "b < 0x80" by (cases bs) auto
    then have "unat b \<le> 0x7f" by (simp add: word_less_nat_alt)
    with b show ?thesis by (simp add: rlp_decode_item.simps Let_def)
  next
    case False
    show ?thesis
    proof (cases "length bs < 56")
      case True
      with False decode_short_string [of bs rest] show ?thesis
        by (auto simp: encodeLength_def simp del: of_nat_add)
    next
      case F2: False
      with False Buf decode_long_string [of bs rest] show ?thesis
        by (auto simp: encodeLength_def Let_def simp del: of_nat_add)
    qed
  qed
next
  case (Arr xs)
  let ?payload = "concat (map rlp_encode xs)"
  have "\<And>x rest. x \<in> set xs \<Longrightarrow> rlp_decode_item (rlp_encode x @ rest) = Inr (x, rest)"
    using Arr by (auto simp: list_all_iff)
  then have items: "rlp_decode_items ?payload = Inr xs" by (rule decode_items_concat)
  show ?case
  proof (cases "length ?payload < 56")
    case True
    with items decode_short_list [of ?payload xs rest] show ?thesis
      by (simp add: encodeLength_def Let_def del: of_nat_add)
  next
    case False
    with items Arr.prems decode_long_list [of ?payload xs rest] show ?thesis
      by (simp add: encodeLength_def Let_def del: of_nat_add)
  qed
qed

lemma rlp_decode_encode: "item_ok x \<Longrightarrow> rlp_decode (rlp_encode x) = Inr x"
  using rlp_decode_item_encode [of x "[]"] rlp_encode_nonempty [of x]
  by (simp add: rlp_decode_def)

lemma nibbles_ok_bufferToNibbles: "nibbles_ok (bufferToNibbles bs)"
proof (induction bs)
  case Nil
  then show ?case by (simp add: nibbles_ok_def)
next
  case (Cons b bs)
  have "unat (drop_bit 4 b) < 16"
  proof -
    have "unat b < 2 ^ LENGTH(8)" by (rule unsigned_less)
    then have "unat b < 256" by simp
    then have "unat b div 16 < 16" by simp
    moreover have "unat (drop_bit 4 b) = unat b div 16"
      unfolding unat_drop_bit_eq by (simp add: drop_bit_eq_div)
    ultimately show ?thesis by simp
  qed
  with Cons show ?case by (simp add: nibbles_ok_def)
qed

lemma byte_of_nibbles:
  assumes "hi < 16" "lo < 16"
  shows "unat (drop_bit 4 (of_nat (push_bit 4 hi + lo) :: byte)) = hi"
    and "unat (of_nat (push_bit 4 hi + lo) :: byte) mod 16 = lo"
proof -
  have "push_bit 4 hi + lo < 256" using assms by (simp add: push_bit_eq_mult)
  then have u: "unat (of_nat (push_bit 4 hi + lo) :: byte) = push_bit 4 hi + lo"
    by (rule unat_byte_of_nat)
  have "unat (drop_bit 4 (of_nat (push_bit 4 hi + lo) :: byte))
          = (push_bit 4 hi + lo) div 16"
    unfolding unat_drop_bit_eq u by (simp add: drop_bit_eq_div)
  then show "unat (drop_bit 4 (of_nat (push_bit 4 hi + lo) :: byte)) = hi"
    using assms by (simp add: push_bit_eq_mult)
  have "unat (of_nat (push_bit 4 hi + lo) :: byte) mod 16 = (push_bit 4 hi + lo) mod 16"
    unfolding u by simp
  then show "unat (of_nat (push_bit 4 hi + lo) :: byte) mod 16 = lo"
    using assms by (simp add: push_bit_eq_mult)
qed

lemma bufferToNibbles_nibblesToBuffer:
  "nibbles_ok ns \<Longrightarrow> even (length ns) \<Longrightarrow> bufferToNibbles (nibblesToBuffer ns) = ns"
  by (induction ns rule: nibblesToBuffer.induct)
    (simp_all add: nibbles_ok_def byte_of_nibbles del: of_nat_add)

lemma addHexPrefix_ok: "nibbles_ok k \<Longrightarrow> nibbles_ok (addHexPrefix k term) \<and> even (length (addHexPrefix k term))"
  by (auto simp: addHexPrefix_def nibbles_ok_def Let_def)

lemma isTerminator_addHexPrefix: "isTerminator (addHexPrefix k term) = term"
  by (auto simp: addHexPrefix_def isTerminator_def Let_def)

lemma removeHexPrefix_addHexPrefix: "removeHexPrefix (addHexPrefix k term) = k"
  by (auto simp: addHexPrefix_def removeHexPrefix_def Let_def)

lemma hex_prefix_roundtrip:
  assumes "nibbles_ok k"
  shows "bufferToNibbles (nibblesToBuffer (addHexPrefix k term)) = addHexPrefix k term"
  using addHexPrefix_ok [OF assms, of "term"] by (simp add: bufferToNibbles_nibblesToBuffer)

lemma decodeRawNode_raw_leaf:
  "nibbles_ok k \<Longrightarrow> decodeRawNode [Buf (nibblesToBuffer (addHexPrefix k True)), v] = Inr (LeafNode k v)"
  by (simp add: decodeRawNode_def hex_prefix_roundtrip isTerminator_addHexPrefix
      removeHexPrefix_addHexPrefix)

lemma decodeRawNode_raw_extension:
  "nibbles_ok k \<Longrightarrow> decodeRawNode [Buf (nibblesToBuffer (addHexPrefix k False)), v] = Inr (ExtensionNode k v)"
  by (simp add: decodeRawNode_def hex_prefix_roundtrip isTerminator_addHexPrefix
      removeHexPrefix_addHexPrefix)

lemma decodeRawNode_raw_branch:
  "length branches = 16 \<Longrightarrow>
   decodeRawNode (map null_item branches @ [null_item v])
     = Inr (BranchNode (map (\<lambda>b. Some (null_item b)) branches) (Some (null_item v)))"
  by (simp add: decodeRawNode_def nth_append)

lemma decodeRawNode_raw:
  "node_ok n \<Longrightarrow> \<exists>r. raw n = Arr r \<and> decodeRawNode r = Inr (normalize n)"
  by (cases n) (simp_all add: decodeRawNode_raw_leaf decodeRawNode_raw_extension decodeRawNode_raw_branch)

lemma decodeNode_serialize: "node_ok n \<Longrightarrow> decodeNode (serialize n) = Inr (normalize n)"
proof -
  assume ok: "node_ok n"
  then have "item_ok (raw n)" by (cases n) simp_all
  then have "rlp_decode (rlp_encode (raw n)) = Inr (raw n)" by (rule rlp_decode_encode)
  with decodeRawNode_raw [OF ok] show ?thesis
    by (auto simp: decodeNode_def serialize_def)
qed

lemma null_item_Some_null: "null_item (Some (null_item b)) = null_item b"
  by (simp add: null_item_def)

lemma raw_normalize: "raw (normalize n) = raw n"
  by (cases n) (simp_all add: null_item_Some_null comp_def)

lemma serialize_normalize: "serialize (normalize n) = serialize n"
  by (simp add: serialize_def raw_normalize)

lemma encodeLength_length: "len < 2 ^ 64 \<Longrightarrow> length (encodeLength len offset) \<le> 9"
  using be_bytes_length8 [of len] by (simp add: encodeLength_def Let_def)

lemma rlp_encode_Buf_length: "length bs < 2 ^ 64 \<Longrightarrow> length (rlp_encode (Buf bs)) \<le> length bs + 9"
  using encodeLength_length [of "length bs" 128] by simp

lemma nibblesToBuffer_length: "length (nibblesToBuffer ns) \<le> length ns"
  by (induction ns rule: nibblesToBuffer.induct) simp_all

lemma bufferToNibbles_length: "length (bufferToNibbles bs) = 2 * length bs"
  by (induction bs) simp_all

lemma leaf_ok:
  assumes "length k < 2 ^ 32" "length v < 2 ^ 32"
  shows "node_ok (LeafNode (bufferToNibbles k) (Buf v))"
proof -
  let ?hp = "nibblesToBuffer (addHexPrefix (bufferToNibbles k) True)"
  have "length ?hp \<le> length (addHexPrefix (bufferToNibbles k) True)" by (rule nibblesToBuffer_length)
  also have "\<dots> \<le> 2 * length k + 2" by (simp add: addHexPrefix_def Let_def bufferToNibbles_length)
  finally have hp: "length ?hp < 2 ^ 34" using assms(1) by simp
  then have hp64: "length ?hp < 2 ^ 64" by simp
  have v64: "length v < 2 ^ 64" using assms(2) by simp
  have "length (rlp_encode (Buf ?hp)) + length (rlp_encode (Buf v)) \<le> (length ?hp + 9) + (length v + 9)"
    using rlp_encode_Buf_length [OF hp64] rlp_encode_Buf_length [OF v64] by linarith
  also have "\<dots> < 2 ^ 64" using hp assms(2) by simp
  finally show ?thesis using hp64 v64
    by (simp add: nibbles_ok_bufferToNibbles del: rlp_encode.simps)
qed

section \<open>Insertion into the empty trie and into a trie of one leaf\<close>

lemma matchingNibbleLength_same: "matchingNibbleLength ns ns = length ns"
  by (induction ns) simp_all

lemma doKeysMatch_same: "doKeysMatch ns ns"
  by (simp add: doKeysMatch_def matchingNibbleLength_same)

lemma matchingNibbleLength_Nil [simp]: "matchingNibbleLength [] ns = 0"
  by (cases ns) simp_all

lemma put_then_get_then_del_on_empty:
  assumes empty: "root t = EMPTY_TRIE_ROOT t"
    and val: "v \<noteq> []"
    and sizes: "length (appliedKey t k) < 2 ^ 32" "length v < 2 ^ 32"
    and hlen: "length (hash t (serialize (LeafNode (bufferToNibbles (appliedKey t k)) (Buf v)))) = hashLen t"
    and reserved: "persistRootOpt t \<longrightarrow> k \<noteq> ROOT_DB_KEY t \<and>
        appliedKey t (ROOT_DB_KEY t) \<noteq> hash t (serialize (LeafNode (bufferToNibbles (appliedKey t k)) (Buf v)))"
  shows "\<exists>t1 t2. put k v t = Some (Inr (), t1) \<and>
           get k False t1 = Some (Inr (Some (Buf v)), t1) \<and>
           del k t1 = Some (Inr (), t2) \<and> root t2 = root t"
proof -
  let ?key = "appliedKey t k"
  let ?leaf = "LeafNode (bufferToNibbles ?key) (Buf v)"
  let ?enc = "serialize ?leaf"
  let ?t0 = "t\<lparr>root := hash t ?enc, rootIsEmptyObject := False\<rparr>"
  let ?t1 = "persistRoot (persistRoot (?t0\<lparr>db := db_put (hash t ?enc) ?enc (db t)\<rparr>))"
  have p: "put k v t = Some (Inr (), ?t1)"
    using empty val hlen reserved
    by (auto simp: put_def createInitialNode_def set_root_def isFalsy_def Let_def)
  have k1: "appliedKey ?t1 k = ?key" "hash ?t1 = hash t" "root ?t1 = hash t ?enc"
    by (simp_all add: appliedKey_def hash_def persistRoot_def fun_eq_iff)
  have dbl: "db_get (db ?t1) (hash t ?enc) = Some ?enc"
    using reserved by (auto simp: persistRoot_def db_get_def db_put_def appliedKey_def hash_def)
  have "node_ok ?leaf" using sizes by (rule leaf_ok)
  then have dec: "decodeNode ?enc = Inr ?leaf" using decodeNode_serialize [of ?leaf] by simp
  have l: "lookupNode (Buf (root ?t1)) ?t1 = (Inr (Some ?leaf), ?t1)"
    using dbl dec k1 by (simp add: lookupNode_def)
  have f: "findPath ?key False ?t1
             = Some (Inr \<lparr>node = Some ?leaf, remaining = [], stack = [?leaf]\<rparr>, ?t1)"
    using l by (simp add: findPath_def walkTrie.simps onFound_def doKeysMatch_same Let_def)
  have g: "get k False ?t1 = Some (Inr (Some (Buf v)), ?t1)"
    using f k1 by (simp add: get_def)
  let ?t2 = "persistRoot (?t1\<lparr>root := EMPTY_TRIE_ROOT ?t1, rootIsEmptyObject := True\<rparr>)"
  have d: "del k ?t1 = Some (Inr (), ?t2)"
    using f k1
    by (simp add: del_def deleteNode_def pop_def set_root_def isFalsy_def hashLen_def Let_def)
  have r: "root ?t2 = root t"
    using empty by (simp add: persistRoot_def EMPTY_TRIE_ROOT_def hash_def)
  from p g d r show ?thesis by blast
qed

lemma matchingNibbleLength_le: "matchingNibbleLength a b \<le> length a \<and> matchingNibbleLength a b \<le> length b"
  by (induction a b rule: matchingNibbleLength.induct) auto

lemma matchingNibbleLength_sym: "matchingNibbleLength a b = matchingNibbleLength b a"
  by (induction a b rule: matchingNibbleLength.induct) auto

lemma matchingNibbleLength_take: "take (matchingNibbleLength a b) a = take (matchingNibbleLength a b) b"
  by (induction a b rule: matchingNibbleLength.induct) auto

lemma matchingNibbleLength_differ:
  "drop (matchingNibbleLength a b) a \<noteq> [] \<Longrightarrow> drop (matchingNibbleLength a b) b \<noteq> [] \<Longrightarrow>
   hd (drop (matchingNibbleLength a b) a) \<noteq> hd (drop (matchingNibbleLength a b) b)"
  by (induction a b rule: matchingNibbleLength.induct) auto

lemma matchingNibbleLength_both_empty:
  "drop (matchingNibbleLength a b) a = [] \<Longrightarrow> drop (matchingNibbleLength a b) b = [] \<Longrightarrow> a = b"
  by (induction a b rule: matchingNibbleLength.induct) (auto split: if_splits)

lemma doKeysMatch_iff: "doKeysMatch a b \<longleftrightarrow> a = b"
proof
  assume "doKeysMatch a b"
  then have "matchingNibbleLength a b = length a" "matchingNibbleLength a b = length b"
    by (simp_all add: doKeysMatch_def Let_def)
  then show "a = b" using matchingNibbleLength_both_empty [of a b] by simp
qed (simp add: doKeysMatch_same)

lemma splice_from_le: "n \<le> length key \<Longrightarrow> splice_from key n = take (length key - n) key"
proof -
  assume le: "n \<le> length key"
  then have e: "int (length key) - int n = int (length key - n)" by simp
  show ?thesis unfolding splice_from_def Let_def e by (simp add: min_def)
qed

lemma byte_eq_by_nibbles:
  fixes x y :: byte
  assumes "unat (drop_bit 4 x) = unat (drop_bit 4 y)" "unat x mod 16 = unat y mod 16"
  shows "x = y"
proof -
  from assms(1) have d: "unat x div 16 = unat y div 16"
    unfolding unat_drop_bit_eq by (simp add: drop_bit_eq_div)
  have "unat x = unat x div 16 * 16 + unat x mod 16" by simp
  also have "\<dots> = unat y div 16 * 16 + unat y mod 16" unfolding d assms(2) by (rule refl)
  also have "\<dots> = unat y" by simp
  finally show ?thesis by (rule word_unat_eq_iff [THEN iffD2])
qed

lemma bufferToNibbles_inj: "bufferToNibbles a = bufferToNibbles b \<Longrightarrow> a = b"
proof (induction a arbitrary: b)
  case Nil
  then show ?case by (cases b) simp_all
next
  case (Cons x xs)
  then obtain y ys where b: "b = y # ys" by (cases b) auto
  with Cons.prems have e: "unat (drop_bit 4 x) = unat (drop_bit 4 y)" "unat x mod 16 = unat y mod 16"
    "bufferToNibbles xs = bufferToNibbles ys" by simp_all
  from e(1,2) have "x = y" by (rule byte_eq_by_nibbles)
  with Cons.IH [OF e(3)] b show ?case by simp
qed

lemma pair_branch_sym:
  assumes "\<not> (a = [] \<and> b = [])" "a \<noteq> [] \<Longrightarrow> b \<noteq> [] \<Longrightarrow> hd a \<noteq> hd b"
  shows "pair_branch t a v1 b v2 = pair_branch t b v2 a v1"
proof (cases "a = []")
  case True
  with assms(1) show ?thesis by (simp add: pair_branch_def Let_def)
next
  case False
  show ?thesis
  proof (cases "b = []")
    case True
    with False show ?thesis by (simp add: pair_branch_def Let_def)
  next
    case F2: False
    with False assms(2) show ?thesis
      by (simp add: pair_branch_def Let_def setBranch_def list_update_swap)
  qed
qed

lemma pair_top_sym:
  assumes "n1 \<noteq> n2"
  shows "pair_top t n1 v1 n2 v2 = pair_top t n2 v2 n1 v1"
proof -
  let ?m = "matchingNibbleLength n1 n2"
  have m: "matchingNibbleLength n2 n1 = ?m" by (rule matchingNibbleLength_sym)
  have tk: "take ?m n2 = take ?m n1" using matchingNibbleLength_take [of n1 n2] by simp
  have ne: "\<not> (drop ?m n1 = [] \<and> drop ?m n2 = [])"
    using assms matchingNibbleLength_both_empty [of n1 n2] by blast
  have df: "drop ?m n1 \<noteq> [] \<Longrightarrow> drop ?m n2 \<noteq> [] \<Longrightarrow> hd (drop ?m n1) \<noteq> hd (drop ?m n2)"
    by (rule matchingNibbleLength_differ)
  have "pair_branch t (drop ?m n1) v1 (drop ?m n2) v2 = pair_branch t (drop ?m n2) v2 (drop ?m n1) v1"
    using ne df by (rule pair_branch_sym)
  then show ?thesis by (cases "?m = 0") (simp_all add: pair_top_def Let_def m tk)
qed

lemma fst_formatNode:
  "fst (formatNode n topLevel ops rm t)
     = (if 32 \<le> length (serialize n) \<or> topLevel then Buf (hash t (serialize n)) else raw n)"
  by (simp add: formatNode_def Let_def)

lemma saveStack_root:
  assumes "fst (saveStack_loop t key (rev stk) None ops) = Some (Buf h)" "length h = hashLen t"
  shows "\<exists>t'. saveStack key stk ops t = (Inr (), t') \<and> root t' = h"
proof -
  obtain r ops1 where l: "saveStack_loop t key (rev stk) None ops = (r, ops1)" by fastforce
  with assms(1) have r: "r = Some (Buf h)" by simp
  show ?thesis using l r assms(2)
    by (simp add: saveStack_def set_root_def isFalsy_def persistRoot_def Let_def)
qed

lemma split_leaf_stack:
  assumes ne: "n1 \<noteq> n2"
  shows "fst (saveStack_loop t n2
            (rev (fst (splitNode True n1 (Buf v1) v2 n2 [] t))) None
            (snd (splitNode True n1 (Buf v1) v2 n2 [] t)))
         = Some (Buf (hash t (serialize (pair_top t n1 v1 n2 v2))))"
proof -
  define m where "m = matchingNibbleLength n1 n2"
  define a where "a = drop m n1"
  define b where "b = drop m n2"
  have mle: "m \<le> length n1" "m \<le> length n2"
    using matchingNibbleLength_le [of n1 n2] by (simp_all add: m_def)
  have nab: "\<not> (a = [] \<and> b = [])"
    using ne matchingNibbleLength_both_empty [of n1 n2] by (auto simp: a_def b_def m_def)
  have tk: "take m n1 = take m n2" using matchingNibbleLength_take [of n1 n2] by (simp add: m_def)
  show ?thesis
  proof (cases "b = []")
    case True
    with nab have a: "a \<noteq> []" by blast
    from True have len2: "length n2 = m" using mle by (simp add: b_def)
    show ?thesis
    proof (cases "m = 0")
      case m0: True
      show ?thesis using True a m0
        unfolding splitNode_def pair_top_def pair_branch_def Let_def
          m_def [symmetric] a_def [symmetric] b_def [symmetric]
        by (simp add: mk_node_def fst_formatNode case_prod_beta)
    next
      case False
      show ?thesis using True a False len2 tk
        unfolding splitNode_def pair_top_def pair_branch_def Let_def
          m_def [symmetric] a_def [symmetric] b_def [symmetric]
        by (simp add: mk_node_def fst_formatNode case_prod_beta splice_from_le)
    qed
  next
    case False
    then have lb: "length (tl b) \<le> length n2" "length n2 - length (tl b) = Suc m"
      using mle by (auto simp: b_def)
    have lastk: "last (take (Suc m) n2) = hd b" "butlast (take (Suc m) n2) = take m n2"
      "take (Suc m) n2 \<noteq> []"
      using False mle by (auto simp: b_def take_Suc_conv_app_nth hd_drop_conv_nth butlast_take)
    show ?thesis
    proof (cases "m = 0")
      case m0: True
      show ?thesis using False m0 lb lastk
        unfolding splitNode_def pair_top_def pair_branch_def Let_def
          m_def [symmetric] a_def [symmetric] b_def [symmetric]
        by (simp add: mk_node_def fst_formatNode case_prod_beta splice_from_le)
    next
      case F2: False
      show ?thesis using False F2 lb lastk tk mle
        unfolding splitNode_def pair_top_def pair_branch_def Let_def
          m_def [symmetric] a_def [symmetric] b_def [symmetric]
        by (simp add: mk_node_def fst_formatNode case_prod_beta splice_from_le)
    qed
  qed
qed

lemma put_on_empty:
  assumes empty: "root t = EMPTY_TRIE_ROOT t"
    and val: "v \<noteq> []"
    and hlen: "length (hash t (serialize (LeafNode (bufferToNibbles (appliedKey t k)) (Buf v)))) = hashLen t"
    and np: "\<not> persistRootOpt t"
  shows "put k v t = Some (Inr (),
           t\<lparr>root := hash t (serialize (LeafNode (bufferToNibbles (appliedKey t k)) (Buf v))),
              rootIsEmptyObject := False,
              db := db_put (hash t (serialize (LeafNode (bufferToNibbles (appliedKey t k)) (Buf v))))
                      (serialize (LeafNode (bufferToNibbles (appliedKey t k)) (Buf v))) (db t)\<rparr>)"
  using assms
  by (simp add: put_def createInitialNode_def set_root_def isFalsy_def persistRoot_def Let_def)

lemma put_into_single_leaf:
  assumes leaf: "db_get (db t) (root t) = Some (serialize (LeafNode n1 (Buf v1)))"
    and ok: "node_ok (LeafNode n1 (Buf v1))"
    and nonempty: "root t \<noteq> EMPTY_TRIE_ROOT t"
    and val: "v2 \<noteq> []"
    and key2: "bufferToNibbles (appliedKey t k2) = n2"
    and ne: "n1 \<noteq> n2"
    and nores: "\<not> (persistRootOpt t \<and> k2 = ROOT_DB_KEY t)"
    and hlen: "length (hash t (serialize (pair_top t n1 v1 n2 v2))) = hashLen t"
  shows "\<exists>t'. put k2 v2 t = Some (Inr (), t') \<and> root t' = hash t (serialize (pair_top t n1 v1 n2 v2))"
proof -
  let ?leaf = "LeafNode n1 (Buf v1)"
  have dec: "decodeNode (serialize ?leaf) = Inr ?leaf" using decodeNode_serialize [OF ok] by simp
  have l: "lookupNode (Buf (root t)) t = (Inr (Some ?leaf), t)"
    using leaf dec by (simp add: lookupNode_def)
  have nm: "\<not> doKeysMatch n2 n1" using ne by (simp add: doKeysMatch_iff)
  have fp: "findPath (appliedKey t k2) False t
              = Some (Inr \<lparr>node = None, remaining = n2, stack = [?leaf]\<rparr>, t)"
    using l nm key2 by (simp add: findPath_def walkTrie.simps onFound_def Let_def)
  have nomatch: "(matchingNibbleLength n1 n2 = length n1 \<and> n2 = []) = False"
    using ne by auto
  have un: "updateNode (appliedKey t k2) v2 n2 [?leaf] t
              = saveStack n2 (fst (splitNode True n1 (Buf v1) v2 n2 [] t))
                  (snd (splitNode True n1 (Buf v1) v2 n2 [] t)) t"
    by (simp add: updateNode_def Let_def case_prod_beta key2 nomatch)
  from saveStack_root [OF split_leaf_stack [OF ne] hlen]
  obtain t' where t': "saveStack n2 (fst (splitNode True n1 (Buf v1) v2 n2 [] t))
                  (snd (splitNode True n1 (Buf v1) v2 n2 [] t)) t = (Inr (), t')"
      "root t' = hash t (serialize (pair_top t n1 v1 n2 v2))" by blast
  have "put k2 v2 t = Some (Inr (), persistRoot t')"
    using nores val nonempty fp un t' by (simp add: put_def Let_def)
  moreover have "root (persistRoot t') = root t'" by (simp add: persistRoot_def)
  ultimately show ?thesis using t'(2) by auto
qed

lemma pair_top_hash:
  "useHashedKeysFunction t1 = useHashedKeysFunction t \<Longrightarrow> pair_top t1 n1 v1 n2 v2 = pair_top t n1 v1 n2 v2"
  by (simp add: pair_top_def pair_branch_def fst_formatNode hash_def Let_def)

lemma two_puts_root:
  assumes empty: "root t = EMPTY_TRIE_ROOT t"
    and np: "\<not> persistRootOpt t"
    and hlen: "\<forall>x. length (hash t x) = hashLen t"
    and vals: "v1 \<noteq> []" "v2 \<noteq> []"
    and sizes: "length (appliedKey t k1) < 2 ^ 32" "length v1 < 2 ^ 32"
    and keys: "appliedKey t k1 \<noteq> appliedKey t k2"
    and nocoll: "hash t (serialize (LeafNode (bufferToNibbles (appliedKey t k1)) (Buf v1))) \<noteq> EMPTY_TRIE_ROOT t"
  shows "root_after (put_all [(k1, v1), (k2, v2)] t)
           = Some (hash t (serialize (pair_top t (bufferToNibbles (appliedKey t k1)) v1
                                         (bufferToNibbles (appliedKey t k2)) v2)))"
proof -
  let ?n1 = "bufferToNibbles (appliedKey t k1)"
  let ?n2 = "bufferToNibbles (appliedKey t k2)"
  let ?leaf = "LeafNode ?n1 (Buf v1)"
  let ?t1 = "t\<lparr>root := hash t (serialize ?leaf), rootIsEmptyObject := False,
               db := db_put (hash t (serialize ?leaf)) (serialize ?leaf) (db t)\<rparr>"
  have p1: "put k1 v1 t = Some (Inr (), ?t1)"
    using empty vals(1) hlen np by (intro put_on_empty) auto
  have same: "hash ?t1 = hash t" "appliedKey ?t1 = appliedKey t" "hashLen ?t1 = hashLen t"
    "EMPTY_TRIE_ROOT ?t1 = EMPTY_TRIE_ROOT t" "useHashedKeysFunction ?t1 = useHashedKeysFunction t"
    by (simp_all add: hash_def appliedKey_def hashLen_def EMPTY_TRIE_ROOT_def fun_eq_iff)
  have ne: "?n1 \<noteq> ?n2" using keys bufferToNibbles_inj by blast
  have "\<exists>t'. put k2 v2 ?t1 = Some (Inr (), t') \<and>
          root t' = hash ?t1 (serialize (pair_top ?t1 ?n1 v1 ?n2 v2))"
  proof (rule put_into_single_leaf)
    show "db_get (db ?t1) (root ?t1) = Some (serialize ?leaf)" by (simp add: db_get_def db_put_def)
    show "node_ok ?leaf" using sizes by (rule leaf_ok)
    show "root ?t1 \<noteq> EMPTY_TRIE_ROOT ?t1" using nocoll by (simp add: same)
    show "v2 \<noteq> []" by fact
    show "bufferToNibbles (appliedKey ?t1 k2) = ?n2" by (simp add: same)
    show "?n1 \<noteq> ?n2" by fact
    show "\<not> (persistRootOpt ?t1 \<and> k2 = ROOT_DB_KEY ?t1)" using np by simp
    show "length (hash ?t1 (serialize (pair_top ?t1 ?n1 v1 ?n2 v2))) = hashLen ?t1"
      using hlen by (simp add: same)
  qed
  moreover have "pair_top ?t1 ?n1 v1 ?n2 v2 = pair_top t ?n1 v1 ?n2 v2"
    by (rule pair_top_hash) simp
  ultimately obtain t' where t': "put k2 v2 ?t1 = Some (Inr (), t')"
      "root t' = hash t (serialize (pair_top t ?n1 v1 ?n2 v2))"
    by (auto simp: same)
  show ?thesis using p1 t' by (simp add: root_after_def)
qed

lemma two_puts_any_order:
  assumes empty: "root t = EMPTY_TRIE_ROOT t"
    and np: "\<not> persistRootOpt t"
    and hlen: "\<forall>x. length (hash t x) = hashLen t"
    and vals: "v1 \<noteq> []" "v2 \<noteq> []"
    and sizes: "length (appliedKey t k1) < 2 ^ 32" "length v1 < 2 ^ 32"
               "length (appliedKey t k2) < 2 ^ 32" "length v2 < 2 ^ 32"
    and keys: "appliedKey t k1 \<noteq> appliedKey t k2"
    and nocoll: "hash t (serialize (LeafNode (bufferToNibbles (appliedKey t k1)) (Buf v1))) \<noteq> EMPTY_TRIE_ROOT t"
                "hash t (serialize (LeafNode (bufferToNibbles (appliedKey t k2)) (Buf v2))) \<noteq> EMPTY_TRIE_ROOT t"
  shows "root_after (put_all [(k1, v1), (k2, v2)] t) = root_after (put_all [(k2, v2), (k1, v1)] t) \<and>
         root_after (put_all [(k1, v1), (k2, v2)] t) \<noteq> None"
proof -
  let ?n1 = "bufferToNibbles (appliedKey t k1)"
  let ?n2 = "bufferToNibbles (appliedKey t k2)"
  have ne: "?n1 \<noteq> ?n2" using keys bufferToNibbles_inj by blast
  have a: "root_after (put_all [(k1, v1), (k2, v2)] t)
             = Some (hash t (serialize (pair_top t ?n1 v1 ?n2 v2)))"
    using empty np hlen vals sizes(1,2) keys nocoll(1) by (rule two_puts_root)
  have b: "root_after (put_all [(k2, v2), (k1, v1)] t)
             = Some (hash t (serialize (pair_top t ?n2 v2 ?n1 v1)))"
    using empty np hlen vals(2,1) sizes(3,4) keys [symmetric] nocoll(2) by (rule two_puts_root)
  from a b pair_top_sym [OF ne] show ?thesis by simp
qed

section \<open>Order of insertion, and insertion undone\<close>

text \<open>
  The order of insertion matters when one key is put with two values: the value put last
  stays. For two pairs with different keys it does not (\<open>two_puts_any_order\<close>), nor for
  the four pairs of the scenario in the listed and in the reverse order.
\<close>

lemma one_key_two_values:
  "root_after (put_all [(str ''a'', str ''1''), (str ''a'', str ''2'')] (fresh_trie test_hash False))
     \<noteq> root_after (put_all [(str ''a'', str ''2''), (str ''a'', str ''1'')] (fresh_trie test_hash False))"
  by code_simp

lemma listed_order_root:
  "root_after (put_all [(str ''doge'', str ''coin''), (str ''do'', str ''verb''),
                        (str ''dog'', str ''puppy''), (str ''horse'', str ''stallion'')]
     (fresh_trie test_hash False))
   = Some [61, 219, 145, 216, 88, 216, 198, 213, 90, 16, 171, 250, 253, 254, 240,
           19, 254, 162, 69, 95, 80, 77, 110, 130, 226, 227, 208, 148, 148, 61, 154, 192]"
  by code_simp

lemma reverse_order_root:
  "root_after (put_all [(str ''horse'', str ''stallion''), (str ''dog'', str ''puppy''),
                        (str ''do'', str ''verb''), (str ''doge'', str ''coin'')]
     (fresh_trie test_hash False))
   = Some [61, 219, 145, 216, 88, 216, 198, 213, 90, 16, 171, 250, 253, 254, 240,
           19, 254, 162, 69, 95, 80, 77, 110, 130, 226, 227, 208, 148, 148, 61, 154, 192]"
  by code_simp






text \<open>
  C2. A key that is put into a trie and deleted again does not always leave the root the
  trie had. The trie holding \<open>do\<close> is one leaf. Putting \<open>dog\<close> turns it into a branch that
  holds the value of \<open>do\<close> and the leaf of \<open>dog\<close>; \<open>get\<close> returns the value of \<open>dog\<close>.
  Deleting \<open>dog\<close> then leaves that branch with its value and no child, and \<open>_deleteNode\<close>,
  which counts the children of the branch and not its value, saves it as it is: the root
  is not the root of the trie holding \<open>do\<close>. When the branch has one child left (the trie
  holding \<open>do\<close> and \<open>dop\<close>), it is folded into that child and its own value is dropped: the
  key \<open>do\<close>, which was never deleted, is gone.
\<close>

theorem C2_put_then_del_does_not_restore_the_root:
  "then_get (str ''dog'') (put_all [(str ''do'', str ''verb'')] (fresh_trie test_hash False))
     = Some (Inr None) \<and>
   then_get (str ''dog'')
      (put_all [(str ''do'', str ''verb''), (str ''dog'', str ''puppy'')] (fresh_trie test_hash False))
     = Some (Inr (Some (Buf (str ''puppy'')))) \<and>
   root_after (then_del (str ''dog'')
      (put_all [(str ''do'', str ''verb''), (str ''dog'', str ''puppy'')] (fresh_trie test_hash False)))
     \<noteq> None \<and>
   root_after (then_del (str ''dog'')
      (put_all [(str ''do'', str ''verb''), (str ''dog'', str ''puppy'')] (fresh_trie test_hash False)))
     \<noteq> root_after (put_all [(str ''do'', str ''verb'')] (fresh_trie test_hash False)) \<and>
   then_get (str ''do'')
      (put_all [(str ''do'', str ''verb''), (str ''dop'', str ''x''), (str ''dog'', str ''puppy'')]
         (fresh_trie test_hash False))
     = Some (Inr (Some (Buf (str ''verb'')))) \<and>
   then_get (str ''do'') (then_del (str ''dog'')
      (put_all [(str ''do'', str ''verb''), (str ''dop'', str ''x''), (str ''dog'', str ''puppy'')]
         (fresh_trie test_hash False)))
     = Some (Inr None)"
  by code_simp

section \<open>The size at which a node is stored\<close>






























































end
